theory Spec2Isabelle
  imports Complex_Main "HOL-Library.Word" "HOL-Library.Multiset"
begin

section \<open>KAT SECT: per-sequence k-mer coverage and the contamination matrix\<close>

text \<open>
  A shallow embedding of \<^verbatim>\<open>src/sect.cc\<close> (class \<^verbatim>\<open>kat::Sect\<close>): the k-mer window
  loop and the GC loop of \<^verbatim>\<open>processSeq\<close>, the interlaced work distribution of
  \<^verbatim>\<open>processInterlaced\<close>, the batch loop of \<^verbatim>\<open>processSeqFile\<close> and the writers
  \<^verbatim>\<open>printCounts\<close> and \<^verbatim>\<open>printStatTable\<close>. The header \<^verbatim>\<open>src/sect.hpp\<close> holds an older
  variant of the same class, written inline; where the two differ the model follows
  \<^verbatim>\<open>sect.cc\<close>.
\<close>

subsection \<open>Values of type double\<close>

text \<open>
  Rounding to binary64, to nearest with ties to even. A positive number is scaled by a
  power of two into the interval from \<open>2^52\<close> to \<open>2^53\<close>, where the spacing of the
  binary64 numbers is 1, rounded to an integer and scaled back. The scaling up stops at
  \<open>2^1074\<close>, the spacing of the subnormal numbers. Magnitudes from \<open>2^1024\<close> on, where
  binary64 overflows, do not arise in \<^verbatim>\<open>processSeq\<close>.
\<close>

definition round_half_even :: "real \<Rightarrow> int" where
  "round_half_even x =
     (let f = \<lfloor>x\<rfloor>; d = x - of_int f in
      if d < 1 / 2 then f else if 1 / 2 < d then f + 1 else if even f then f else f + 1)"

fun scale_up :: "nat list \<Rightarrow> real \<Rightarrow> nat \<Rightarrow> real \<times> nat" where
  "scale_up [] x s = (x, s)"
| "scale_up (k # ks) x s =
     (if x * 2 ^ k < 2 ^ 53 \<and> s + k \<le> 1074 then scale_up ks (x * 2 ^ k) (s + k)
      else scale_up ks x s)"

fun scale_down :: "nat list \<Rightarrow> real \<Rightarrow> nat \<Rightarrow> real \<times> nat" where
  "scale_down [] x s = (x, s)"
| "scale_down (k # ks) x s =
     (if 2 ^ 52 \<le> x / 2 ^ k then scale_down ks (x / 2 ^ k) (s + k) else scale_down ks x s)"

definition round_pos :: "real \<Rightarrow> real" where
  "round_pos x =
     (if x < 2 ^ 53
      then (let (y, s) = scale_up [1024, 512, 256, 128, 64, 32, 16, 8, 4, 2, 1] x 0
            in of_int (round_half_even y) / 2 ^ s)
      else (let (y, s) = scale_down [512, 256, 128, 64, 32, 16, 8, 4, 2, 1] x 0
            in of_int (round_half_even y) * 2 ^ s))"

definition round64 :: "real \<Rightarrow> real" where
  "round64 x = (if x = 0 then 0 else if 0 < x then round_pos x else - round_pos (- x))"

text \<open>
  A \<^verbatim>\<open>double\<close> is one of the three special values of IEEE 754 that the code can
  produce, or finite. A finite double is written \<open>Fin q\<close> for a real number \<open>q\<close> and
  stands for the binary64 number nearest to \<open>q\<close>, that is \<open>round64 q\<close>: an operation
  that produces a double leaves its exact result in \<open>Fin\<close>, and every operation that
  reads a double rounds it first. Signed zeros are not distinguished; every divisor in
  the code is a converted unsigned integer.
\<close>

datatype dbl = NaN | NegInf | Fin real | PosInf

fun is_finite :: "dbl \<Rightarrow> bool" where
  "is_finite (Fin q) = True"
| "is_finite NaN = False"
| "is_finite NegInf = False"
| "is_finite PosInf = False"

text \<open>
  \<^verbatim>\<open>(double) a / (double) b\<close> for unsigned integers \<open>a\<close> and \<open>b\<close>. The conversions of
  the operands are exact below \<open>2^53\<close>, which bounds the lengths and counters of a
  sequence held in memory.
\<close>

definition dbl_div_u64 :: "nat \<Rightarrow> nat \<Rightarrow> dbl" where
  "dbl_div_u64 a b =
     (if b = 0 then (if a = 0 then NaN else PosInf) else Fin (of_nat a / of_nat b))"

text \<open>\<^verbatim>\<open>x * r\<close> for a double \<open>x\<close> and a finite double \<open>r\<close>.\<close>

fun dbl_mul :: "dbl \<Rightarrow> real \<Rightarrow> dbl" where
  "dbl_mul NaN r = NaN"
| "dbl_mul (Fin q) r = Fin (round64 q * round64 r)"
| "dbl_mul PosInf r =
     (if round64 r = 0 then NaN else if 0 < round64 r then PosInf else NegInf)"
| "dbl_mul NegInf r =
     (if round64 r = 0 then NaN else if 0 < round64 r then NegInf else PosInf)"

text \<open>
  \<^verbatim>\<open>log10\<close> of the C library: a pole at zero, a domain error below it. Its value at a
  positive finite argument is a parameter \<open>lg\<close>.
\<close>

fun dbl_log10 :: "(real \<Rightarrow> real) \<Rightarrow> dbl \<Rightarrow> dbl" where
  "dbl_log10 lg NaN = NaN"
| "dbl_log10 lg NegInf = NaN"
| "dbl_log10 lg PosInf = PosInf"
| "dbl_log10 lg (Fin q) =
     (if round64 q = 0 then NegInf else if round64 q < 0 then NaN else Fin (lg (round64 q)))"

text \<open>\<^verbatim>\<open>x >= r\<close> for a double \<open>x\<close> and a finite double \<open>r\<close>; false on NaN.\<close>

fun dbl_ge :: "dbl \<Rightarrow> real \<Rightarrow> bool" where
  "dbl_ge NaN r = False"
| "dbl_ge NegInf r = False"
| "dbl_ge PosInf r = True"
| "dbl_ge (Fin q) r = (round64 r \<le> round64 q)"

text \<open>
  Conversion of a double to \<^verbatim>\<open>uint16_t\<close>: the value is truncated towards zero; the
  behaviour is undefined when the truncated value is not representable, which
  includes every non-finite value. \<open>None\<close> is the undefined case.
\<close>

definition trunc :: "real \<Rightarrow> int" where
  "trunc q = (if 0 \<le> q then \<lfloor>q\<rfloor> else \<lceil>q\<rceil>)"

fun dbl_to_u16 :: "dbl \<Rightarrow> 16 word option" where
  "dbl_to_u16 (Fin q) =
     (if 0 \<le> trunc (round64 q) \<and> trunc (round64 q) < 65536
      then Some (word_of_int (trunc (round64 q))) else None)"
| "dbl_to_u16 NaN = None"
| "dbl_to_u16 NegInf = None"
| "dbl_to_u16 PosInf = None"

subsection \<open>Configuration\<close>

text \<open>
  The option members of \<^verbatim>\<open>kat::Sect\<close>, with the types of the declarations in
  \<^verbatim>\<open>sect.cc\<close> (\<^verbatim>\<open>uint16_t\<close> for the bin counts, the thread count and the k-mer length).
  \<^verbatim>\<open>JellyfishHelper::getCount(input.hash, mer, input.canonical)\<close> is a lookup in a
  hash that this class only reads; it is the field \<open>getCount\<close>, applied to the canonical
  flag and the k-mer string. \<open>log10_pos\<close> is the C library's \<^verbatim>\<open>log10\<close> on positive
  arguments.
\<close>

record sect_cfg =
  gcBins :: "16 word"
  cvgBins :: "16 word"
  cvgLogscale :: bool
  threads :: "16 word"
  merLen :: "16 word"
  canonical :: bool
  noCountStats :: bool
  median :: bool
  getCount :: "bool \<Rightarrow> string \<Rightarrow> 64 word"
  log10_pos :: "real \<Rightarrow> real"

subsection \<open>The k-mer windows of one sequence\<close>

text \<open>\<^verbatim>\<open>validKmer\<close>: every character is one of the upper-case letters A, T, G, C.\<close>

fun validKmer :: "string \<Rightarrow> bool" where
  "validKmer [] = True"
| "validKmer (c # merstr) =
     (if c = CHR ''A'' \<or> c = CHR ''T'' \<or> c = CHR ''G'' \<or> c = CHR ''C''
      then validKmer merstr else False)"

text \<open>
  \<^verbatim>\<open>seq.substr(pos, n)\<close> for \<open>pos \<le> length seq\<close>, which holds at every call in
  \<^verbatim>\<open>processSeq\<close> (\<open>pos < nbCounts \<le> length seq + 1\<close>).
\<close>

definition substr :: "string \<Rightarrow> nat \<Rightarrow> nat \<Rightarrow> string" where
  "substr s pos n = take n (drop pos s)"

text \<open>
  The window loop of \<^verbatim>\<open>processSeq\<close>: at offset \<open>i\<close> the k-mer is cut out, an invalid
  k-mer stores 0, a valid one is looked up, added to \<^verbatim>\<open>sum\<close> (a \<^verbatim>\<open>uint64_t\<close>, so the
  addition wraps; \<open>sum64\<close> below) and stored.
\<close>

function count_loop ::
  "sect_cfg \<Rightarrow> string \<Rightarrow> nat \<Rightarrow> nat \<Rightarrow> 64 word list \<times> 64 word \<Rightarrow> 64 word list \<times> 64 word" where
  "count_loop c seq nbCounts i (seqCounts, sum64) =
     (if i < nbCounts then
        (let merstr = substr seq i (unat (merLen c)) in
         if \<not> validKmer merstr then
           count_loop c seq nbCounts (Suc i) (seqCounts[i := 0], sum64)
         else
           (let count = getCount c (canonical c) merstr in
            count_loop c seq nbCounts (Suc i) (seqCounts[i := count], sum64 + count)))
      else (seqCounts, sum64))"
  by pat_completeness auto
termination
  by (relation "measure (\<lambda>(c, seq, nbCounts, i, acc). nbCounts - i)") auto

declare count_loop.simps [simp del]

text \<open>
  \<open>nbCounts\<close> is \<^verbatim>\<open>seqLength - merLen + 1\<close>. The code computes it in \<^verbatim>\<open>uint64_t\<close> before
  the length test and reads it only where \<open>merLen \<le> seqLength\<close>, where the subtraction
  does not wrap.
\<close>

definition nbCounts_of :: "sect_cfg \<Rightarrow> string \<Rightarrow> nat" where
  "nbCounts_of c seq = length seq - unat (merLen c) + 1"

text \<open>The vector \<^verbatim>\<open>seqCounts\<close> (created with \<open>nbCounts\<close> zeros) and \<^verbatim>\<open>sum\<close> after the loop.\<close>

definition seq_counts :: "sect_cfg \<Rightarrow> string \<Rightarrow> 64 word list \<times> 64 word" where
  "seq_counts c seq =
     count_loop c seq (nbCounts_of c seq) 0 (replicate (nbCounts_of c seq) 0, 0)"

text \<open>The median branch: the element at index \<open>size / 2\<close> of a sorted copy.\<close>

definition median_cvg :: "64 word list \<Rightarrow> dbl" where
  "median_cvg seqCounts = Fin (of_nat (unat (sort seqCounts ! (length seqCounts div 2))))"

text \<open>
  \<open>average_cvg\<close> at the end of the first part of \<^verbatim>\<open>processSeq\<close>: 0.0 for a sequence
  shorter than the k-mer, else the median or the mean of the window counts.
\<close>

definition average_cvg :: "sect_cfg \<Rightarrow> string \<Rightarrow> dbl" where
  "average_cvg c seq =
     (if length seq < unat (merLen c) then Fin 0
      else (let (seqCounts, sum64) = seq_counts c seq in
            if median c then median_cvg seqCounts
            else dbl_div_u64 (unat sum64) (nbCounts_of c seq)))"

text \<open>
  \<open>nbNonZero\<close>: incremented once, after the loop, when the pointer \<^verbatim>\<open>seqCounts\<close> is not
  null; the pointer comes from \<^verbatim>\<open>make_shared\<close> and is never null.
\<close>

definition nbNonZero_of :: "sect_cfg \<Rightarrow> string \<Rightarrow> nat" where
  "nbNonZero_of c seq = (if length seq < unat (merLen c) then 0 else 0 + 1)"

definition percentNonZero_of :: "sect_cfg \<Rightarrow> string \<Rightarrow> dbl" where
  "percentNonZero_of c seq = dbl_div_u64 (nbNonZero_of c seq) (length seq)"

subsection \<open>GC fraction\<close>

text \<open>The character loop of \<^verbatim>\<open>processSeq\<close> with its three counters.\<close>

fun gc_loop :: "string \<Rightarrow> nat \<times> nat \<times> nat \<Rightarrow> nat \<times> nat \<times> nat" where
  "gc_loop [] (gs, cs, ns) = (gs, cs, ns)"
| "gc_loop (ch # rest) (gs, cs, ns) =
     (if ch = CHR ''G'' \<or> ch = CHR ''g'' then gc_loop rest (gs + 1, cs, ns)
      else if ch = CHR ''C'' \<or> ch = CHR ''c'' then gc_loop rest (gs, cs + 1, ns)
      else if ch = CHR ''N'' \<or> ch = CHR ''n'' then gc_loop rest (gs, cs, ns + 1)
      else gc_loop rest (gs, cs, ns))"

definition gc_perc :: "string \<Rightarrow> dbl" where
  "gc_perc seq =
     (let (gs, cs, ns) = gc_loop seq (0, 0, 0) in dbl_div_u64 (gs + cs) (length seq - ns))"

subsection \<open>The threaded matrix\<close>

text \<open>
  Modelled from the spec: the class \<^verbatim>\<open>ThreadedSparseMatrix\<close> of
  \<^verbatim>\<open>inc/matrix/threaded_sparse_matrix.hpp\<close> is not among the sources. A matrix is a
  grid of non-negative integer accumulators of dimensions \<open>gcBins \<times> cvgBins\<close>: a list of
  \<open>gcBins\<close> rows of \<open>cvgBins\<close> cells.
\<close>

type_synonym matrix = "nat list list"

definition new_matrix :: "nat \<Rightarrow> nat \<Rightarrow> matrix" where
  "new_matrix w h = replicate w (replicate h 0)"

text \<open>
  Modelled from the spec: a bin increment adds a value to one cell of the grid. The spec
  gives no meaning to an increment outside the grid, so \<open>in_matrix\<close> guards it.
\<close>

definition in_matrix :: "matrix \<Rightarrow> nat \<Rightarrow> nat \<Rightarrow> bool" where
  "in_matrix m x y = (x < length m \<and> y < length (m ! x))"

text \<open>
  Modelled from the spec: the increment of cell \<open>(x, y)\<close> of a grid by \<open>v\<close> (the method
  \<^verbatim>\<open>inc\<close> of the missing matrix class).
\<close>

definition matrix_inc :: "matrix \<Rightarrow> nat \<Rightarrow> nat \<Rightarrow> nat \<Rightarrow> matrix" where
  "matrix_inc m x y v = m[x := (m ! x)[y := m ! x ! y + v]]"

text \<open>Modelled from the spec: the sum of all cells of a grid of the missing matrix class.\<close>

definition matrix_sum :: "matrix \<Rightarrow> nat" where
  "matrix_sum m = sum_list (map sum_list m)"

text \<open>
  Modelled from the spec: the maximum cell value of a grid (\<^verbatim>\<open>getMaxVal\<close> of the
  missing matrix class).
\<close>

definition matrix_max :: "matrix \<Rightarrow> nat" where
  "matrix_max m = fold max (concat m) 0"

text \<open>
  Modelled from the spec: the element-wise sum of two grids of the same dimensions, the
  step of the merge of the missing matrix class.
\<close>

definition matrix_add :: "matrix \<Rightarrow> matrix \<Rightarrow> matrix" where
  "matrix_add a b = map2 (map2 (+)) a b"

text \<open>
  Modelled from the spec: one ThreadMatrix per worker identity, kept for the whole run, and
  the merged ContaminationMatrix with its maximum cell value.
\<close>

record threaded_matrix =
  tm_width :: nat
  tm_height :: nat
  thread_mxs :: "matrix list"
  final_mx :: matrix
  final_max :: nat

text \<open>
  Modelled from the spec: the constructor of the missing class
  \<^verbatim>\<open>ThreadedSparseMatrix(gcBins, cvgBins, threads)\<close>, with every cell 0.
\<close>

definition new_threaded_matrix :: "nat \<Rightarrow> nat \<Rightarrow> nat \<Rightarrow> threaded_matrix" where
  "new_threaded_matrix w h t =
     \<lparr>tm_width = w, tm_height = h, thread_mxs = replicate t (new_matrix w h),
      final_mx = new_matrix w h, final_max = 0\<rparr>"

text \<open>
  Modelled from the spec: \<^verbatim>\<open>incTM(th_id, x, y, val)\<close> increments cell \<open>(x, y)\<close> of the
  ThreadMatrix of worker \<open>th_id\<close> by \<open>val\<close>. \<open>None\<close> stands for an increment outside
  the grid, which the spec leaves without a result.
\<close>

definition incTM :: "threaded_matrix \<Rightarrow> nat \<Rightarrow> nat \<Rightarrow> nat \<Rightarrow> nat \<Rightarrow> threaded_matrix option" where
  "incTM tm th_id x y val =
     (if th_id < length (thread_mxs tm) \<and> in_matrix (thread_mxs tm ! th_id) x y
      then Some (tm\<lparr>thread_mxs := (thread_mxs tm)[th_id := matrix_inc (thread_mxs tm ! th_id) x y val]\<rparr>)
      else None)"

text \<open>
  Modelled from the spec: \<^verbatim>\<open>mergeThreadedMatricies\<close> sums all ThreadMatrix grids
  element-wise into the ContaminationMatrix and stores the maximum cell value.
\<close>

definition mergeThreadedMatricies :: "threaded_matrix \<Rightarrow> threaded_matrix" where
  "mergeThreadedMatricies tm =
     (let merged = fold matrix_add (thread_mxs tm) (new_matrix (tm_width tm) (tm_height tm))
      in tm\<lparr>final_mx := merged, final_max := matrix_max merged\<rparr>)"

subsection \<open>State of a run\<close>

text \<open>
  The members of \<^verbatim>\<open>kat::Sect\<close> that change during a run: the chunking variables, the
  batch (\<open>names\<close>, \<open>seqs\<close>, \<open>recordsInBatch\<close>), the per-batch result vectors, and the
  matrix. A null \<^verbatim>\<open>shared_ptr\<close> in \<open>counts\<close> is \<open>None\<close>. The streams are lists: \<open>cerr\<close>
  of diagnostics, \<open>counts_cvg\<close> of the lines of the counts file, \<open>stats_csv\<close> of the rows
  of the statistics table after its header line (a row keeps its values; the text
  format of a double is not modelled).
\<close>

type_synonym stat_row = "string \<times> dbl \<times> dbl \<times> 32 word \<times> 32 word \<times> dbl"

record sect_state =
  bucket_size :: nat
  remaining :: nat
  offset :: "32 word"
  names :: "string list"
  seqs :: "string list"
  recordsInBatch :: nat
  counts :: "64 word list option list"
  coverages :: "dbl list"
  gcs :: "dbl list"
  lengths :: "32 word list"
  nonZero :: "32 word list"
  percentNonZero :: "dbl list"
  contamination_mx :: threaded_matrix
  cerr :: "string list"
  counts_cvg :: "string list"
  stats_csv :: "stat_row list"

text \<open>
  What stops a run: an integer division by zero, a conversion of a double to
  \<^verbatim>\<open>uint16_t\<close> with undefined behaviour, a bin outside the grid, a call through a null
  pointer.
\<close>

datatype fault = DivisionByZero | ConversionUndefined | BinOutOfRange | NullDereference

text \<open>Decimal output of an unsigned integer, as \<^verbatim>\<open>operator<<\<close> writes it.\<close>

function show_nat :: "nat \<Rightarrow> string" where
  "show_nat n =
     (if n < 10 then [char_of (48 + n)] else show_nat (n div 10) @ [char_of (48 + n mod 10)])"
  by pat_completeness auto
termination
  by (relation "measure id") auto

declare show_nat.simps [simp del]

subsection \<open>processSeq\<close>

definition too_short_msg :: "sect_cfg \<Rightarrow> string \<Rightarrow> string \<Rightarrow> string" where
  "too_short_msg c name seq =
     name @ '': '' @ seq @ '' is too short to compute coverage.  Sequence length is ''
       @ show_nat (length seq) @ '' and K-mer length is '' @ show_nat (unat (merLen c))
       @ ''. Setting sequence coverage to 0.''"

text \<open>
  The scaled coverage \<^verbatim>\<open>compressed_cvg\<close> and the two bin indices \<open>x\<close> and \<open>y\<close>, each the
  conversion of a double to \<^verbatim>\<open>uint16_t\<close>. The literal \<^verbatim>\<open>0.1\<close> and the quotient
  \<^verbatim>\<open>cvgBins / 5.0\<close> are doubles, rounded where the multiplication reads them. In \<open>y\<close>
  the conditional expression has type double: \<^verbatim>\<open>cvgBins - 1\<close> is computed in \<^verbatim>\<open>int\<close>
  and converted.
\<close>

definition compressed_cvg :: "sect_cfg \<Rightarrow> dbl \<Rightarrow> dbl" where
  "compressed_cvg c cvg =
     (let log_cvg = (if cvgLogscale c then dbl_log10 (log10_pos c) cvg else cvg) in
      if cvgLogscale c then dbl_mul log_cvg (real (unat (cvgBins c)) / 5)
      else dbl_mul cvg (1 / 10))"

definition gc_bin :: "sect_cfg \<Rightarrow> dbl \<Rightarrow> 16 word option" where
  "gc_bin c gc = dbl_to_u16 (dbl_mul gc (real (unat (gcBins c))))"

definition cvg_bin :: "sect_cfg \<Rightarrow> dbl \<Rightarrow> 16 word option" where
  "cvg_bin c cvg =
     dbl_to_u16 (if dbl_ge (compressed_cvg c cvg) (real (unat (cvgBins c)))
                 then Fin (of_int (int (unat (cvgBins c)) - 1))
                 else compressed_cvg c cvg)"

text \<open>
  \<^verbatim>\<open>processSeq(index, th_id)\<close>, first part: what is written to \<^verbatim>\<open>cerr\<close> and to the
  vectors of the batch. The vectors are written at \<open>index\<close>, which is below
  \<open>recordsInBatch\<close> at every call. A short sequence writes the diagnostic and leaves
  \<open>counts\<close> and \<open>coverages\<close> as they are; every sequence has its length (narrowed to
  \<^verbatim>\<open>uint32_t\<close>), its non-zero statistics and its GC fraction stored.
\<close>

definition store_results :: "sect_cfg \<Rightarrow> nat \<Rightarrow> sect_state \<Rightarrow> sect_state" where
  "store_results c index st =
     (let seq = seqs st ! index;
          seqLength = length seq;
          st1 = (if seqLength < unat (merLen c)
                 then st\<lparr>cerr := cerr st @ [too_short_msg c (names st ! index) seq]\<rparr>
                 else st\<lparr>counts := (counts st)[index := Some (fst (seq_counts c seq))],
                         coverages := (coverages st)[index := average_cvg c seq]\<rparr>)
      in st1\<lparr>lengths := (lengths st1)[index := of_nat seqLength],
             nonZero := (nonZero st1)[index := of_nat (nbNonZero_of c seq)],
             percentNonZero := (percentNonZero st1)[index := percentNonZero_of c seq],
             gcs := (gcs st1)[index := gc_perc seq]\<rparr>)"

text \<open>
  \<^verbatim>\<open>processSeq(index, th_id)\<close>: the results are stored, then the two bin indices are
  computed and the length of the sequence is added to the matrix of the worker.
\<close>

definition processSeq :: "sect_cfg \<Rightarrow> nat \<Rightarrow> nat \<Rightarrow> sect_state \<Rightarrow> fault + sect_state" where
  "processSeq c index th_id st =
     (let seq = seqs st ! index;
          st2 = store_results c index st
      in case gc_bin c (gc_perc seq) of
           None \<Rightarrow> Inl ConversionUndefined
         | Some x \<Rightarrow>
             (case cvg_bin c (average_cvg c seq) of
                None \<Rightarrow> Inl ConversionUndefined
              | Some y \<Rightarrow>
                  (case incTM (contamination_mx st2) th_id (unat x) (unat y) (length seq) of
                     None \<Rightarrow> Inl BinOutOfRange
                   | Some tm \<Rightarrow> Inr (st2\<lparr>contamination_mx := tm\<rparr>))))"

subsection \<open>Work distribution\<close>

text \<open>
  \<^verbatim>\<open>processInterlaced(th_id)\<close>: the loop starts at \<open>th_id\<close>, stops at \<open>recordsInBatch\<close>
  and steps by \<open>threads\<close>. With a step of 0 it would not end, so the loop is a partial
  function; a fault in \<^verbatim>\<open>processSeq\<close> ends it.
\<close>

partial_function (option) processInterlaced_loop ::
  "sect_cfg \<Rightarrow> nat \<Rightarrow> nat \<Rightarrow> nat \<Rightarrow> sect_state \<Rightarrow> (fault + sect_state) option" where
  "processInterlaced_loop c th_id end_idx i st =
     (if i < end_idx then
        (case processSeq c i th_id st of
           Inl e \<Rightarrow> Some (Inl e)
         | Inr st' \<Rightarrow> processInterlaced_loop c th_id end_idx (i + unat (threads c)) st')
      else Some (Inr st))"

declare processInterlaced_loop.simps [code]

definition processInterlaced :: "sect_cfg \<Rightarrow> nat \<Rightarrow> sect_state \<Rightarrow> (fault + sect_state) option" where
  "processInterlaced c th_id st = processInterlaced_loop c th_id (recordsInBatch st) th_id st"

definition analyseBatchSlice :: "sect_cfg \<Rightarrow> nat \<Rightarrow> sect_state \<Rightarrow> (fault + sect_state) option" where
  "analyseBatchSlice c th_id st =
     (if bucket_size st < 1 \<and> recordsInBatch st \<le> th_id then Some (Inr st)
      else processInterlaced c th_id st)"

text \<open>
  \<^verbatim>\<open>analyseBatch\<close> starts one thread per identity \<open>0, \<dots>, threads - 1\<close> and joins them.
  The threads write disjoint entries of the result vectors and each its own matrix, so
  the model runs them one after the other, in the order of their identities.
\<close>

fun run_workers :: "sect_cfg \<Rightarrow> nat list \<Rightarrow> sect_state \<Rightarrow> (fault + sect_state) option" where
  "run_workers c [] st = Some (Inr st)"
| "run_workers c (th_id # rest) st =
     (case analyseBatchSlice c th_id st of
        None \<Rightarrow> None
      | Some (Inl e) \<Rightarrow> Some (Inl e)
      | Some (Inr st') \<Rightarrow> run_workers c rest st')"

definition analyseBatch :: "sect_cfg \<Rightarrow> sect_state \<Rightarrow> (fault + sect_state) option" where
  "analyseBatch c st = run_workers c [0..<unat (threads c)] st"

subsection \<open>Batches\<close>

definition BATCH_SIZE :: nat where
  "BATCH_SIZE = 1024"

text \<open>\<^verbatim>\<open>createBatchVars\<close>: fresh vectors of \<open>batchSize\<close> null pointers and zeros.\<close>

definition createBatchVars :: "nat \<Rightarrow> sect_state \<Rightarrow> sect_state" where
  "createBatchVars batchSize st =
     st\<lparr>counts := replicate batchSize None,
        coverages := replicate batchSize (Fin 0),
        gcs := replicate batchSize (Fin 0),
        lengths := replicate batchSize 0,
        nonZero := replicate batchSize 0,
        percentNonZero := replicate batchSize (Fin 0)\<rparr>"

text \<open>
  \<^verbatim>\<open>destroyBatchVars\<close> calls \<^verbatim>\<open>counts->at(i)->clear()\<close> for every entry, with no test
  for a null pointer, and then clears the vectors. A call of a member function through
  a null pointer has undefined behaviour; it is the fault \<open>NullDereference\<close>. (The
  variant of this function in \<^verbatim>\<open>sect.hpp\<close> tests each entry for null first.)
\<close>

definition destroyBatchVars :: "sect_state \<Rightarrow> fault + sect_state" where
  "destroyBatchVars st =
     (if None \<in> set (counts st) then Inl NullDereference
      else Inr (st\<lparr>counts := [], coverages := [], gcs := [], lengths := [],
                   nonZero := [], percentNonZero := []\<rparr>))"

text \<open>
  \<^verbatim>\<open>printCounts\<close>: for each record the line of its name, then its counts separated by
  blanks, or \<^verbatim>\<open>0\<close> when the pointer is null or the vector empty.
\<close>

definition counts_line :: "64 word list option \<Rightarrow> string" where
  "counts_line seqCounts =
     (case seqCounts of
        None \<Rightarrow> ''0''
      | Some [] \<Rightarrow> ''0''
      | Some (c0 # rest) \<Rightarrow>
          show_nat (unat c0) @ concat (map (\<lambda>cnt. '' '' @ show_nat (unat cnt)) rest))"

definition printCounts :: "sect_state \<Rightarrow> sect_state" where
  "printCounts st =
     st\<lparr>counts_cvg := counts_cvg st @
          concat (map (\<lambda>i. [''>'' @ names st ! i, counts_line (counts st ! i)])
                      [0..<recordsInBatch st])\<rparr>"

text \<open>\<^verbatim>\<open>printStatTable\<close>: one row per record, in the order of the indices.\<close>

definition stat_row_of :: "sect_state \<Rightarrow> nat \<Rightarrow> stat_row" where
  "stat_row_of st i =
     (names st ! i, coverages st ! i, gcs st ! i, lengths st ! i, nonZero st ! i,
      percentNonZero st ! i)"

definition printStatTable :: "sect_state \<Rightarrow> sect_state" where
  "printStatTable st =
     st\<lparr>stats_csv := stats_csv st @ map (stat_row_of st) [0..<recordsInBatch st]\<rparr>"

text \<open>
  The batch loop of \<^verbatim>\<open>processSeqFile\<close>. The reader is the list of the records not yet
  read, each a name and a sequence; \<^verbatim>\<open>readRecords\<close> takes up to \<open>BATCH_SIZE\<close> of them.
\<close>

definition load_batch :: "(string \<times> string) list \<Rightarrow> sect_state \<Rightarrow> sect_state" where
  "load_batch recs st =
     createBatchVars (length (take BATCH_SIZE recs))
       (st\<lparr>names := map fst (take BATCH_SIZE recs),
           seqs := map snd (take BATCH_SIZE recs),
           recordsInBatch := length (take BATCH_SIZE recs)\<rparr>)"

definition finish_batch :: "sect_cfg \<Rightarrow> sect_state \<Rightarrow> fault + sect_state" where
  "finish_batch c st =
     (let st1 = (if \<not> noCountStats c then printCounts st else st);
          st2 = printStatTable st1
      in case destroyBatchVars st2 of
           Inl e \<Rightarrow> Inl e
         | Inr st3 \<Rightarrow> Inr (st3\<lparr>offset := offset st3 + of_nat (recordsInBatch st3)\<rparr>))"

function processSeqFile_loop ::
  "sect_cfg \<Rightarrow> (string \<times> string) list \<Rightarrow> sect_state \<Rightarrow> (fault + sect_state) option" where
  "processSeqFile_loop c recs st =
     (if recs = [] then Some (Inr st)
      else
        (case analyseBatch c (load_batch recs st) of
           None \<Rightarrow> None
         | Some (Inl e) \<Rightarrow> Some (Inl e)
         | Some (Inr st1) \<Rightarrow>
             (case finish_batch c st1 of
                Inl e \<Rightarrow> Some (Inl e)
              | Inr st2 \<Rightarrow> processSeqFile_loop c (drop BATCH_SIZE recs) st2)))"
  by pat_completeness auto
termination
  by (relation "measure (\<lambda>(c, recs, st). length recs)") (auto simp: BATCH_SIZE_def)

declare processSeqFile_loop.simps [simp del]

definition processSeqFile :: "sect_cfg \<Rightarrow> (string \<times> string) list \<Rightarrow> sect_state \<Rightarrow> (fault + sect_state) option" where
  "processSeqFile c recs st =
     processSeqFile_loop c recs (st\<lparr>offset := 0, recordsInBatch := 0, names := [], seqs := []\<rparr>)"

text \<open>\<^verbatim>\<open>merge\<close> hands over to the matrix.\<close>

definition merge :: "sect_state \<Rightarrow> sect_state" where
  "merge st = st\<lparr>contamination_mx := mergeThreadedMatricies (contamination_mx st)\<rparr>"

text \<open>
  \<^verbatim>\<open>execute\<close>, from the chunking variables on: the checks of the input files, the
  loading and the dump of the hash are outside the model. \<^verbatim>\<open>BATCH_SIZE / threads\<close> is an integer
  division. The state before the first batch has empty vectors and streams.
\<close>

definition init_state :: "sect_cfg \<Rightarrow> sect_state" where
  "init_state c =
     (let bs = BATCH_SIZE div unat (threads c) in
      \<lparr>bucket_size = bs,
       remaining = BATCH_SIZE mod (if bs < 1 then 1 else unat (threads c)),
       offset = 0, names = [], seqs = [], recordsInBatch = 0,
       counts = [], coverages = [], gcs = [], lengths = [], nonZero = [],
       percentNonZero = [],
       contamination_mx =
         new_threaded_matrix (unat (gcBins c)) (unat (cvgBins c)) (unat (threads c)),
       cerr = [], counts_cvg = [], stats_csv = []\<rparr>)"

definition execute :: "sect_cfg \<Rightarrow> (string \<times> string) list \<Rightarrow> (fault + sect_state) option" where
  "execute c recs =
     (if threads c = 0 then Some (Inl DivisionByZero)
      else
        (case processSeqFile c recs (init_state c) of
           None \<Rightarrow> None
         | Some (Inl e) \<Rightarrow> Some (Inl e)
         | Some (Inr st) \<Rightarrow> Some (Inr (merge st))))"

subsection \<open>Notions of the specification\<close>

text \<open>The value that the window loop stores at offset \<open>i\<close>.\<close>

definition window_count :: "sect_cfg \<Rightarrow> string \<Rightarrow> nat \<Rightarrow> 64 word" where
  "window_count c seq i =
     (let merstr = substr seq i (unat (merLen c)) in
      if validKmer merstr then getCount c (canonical c) merstr else 0)"

text \<open>
  A k-mer over the upper-case letters A, C, G, T, and a k-mer over these letters in
  either case (the specification's reading of a base in \<open>{A,C,G,T}\<close>, compared
  without regard to case).
\<close>

definition upper_acgt :: "string \<Rightarrow> bool" where
  "upper_acgt merstr = list_all (\<lambda>ch. ch \<in> set ''ACGT'') merstr"

definition anycase_acgt :: "string \<Rightarrow> bool" where
  "anycase_acgt merstr = list_all (\<lambda>ch. ch \<in> set ''ACGTacgt'') merstr"

text \<open>
  The bases that count for the GC fraction, the ambiguous base N, and the replacement
  of every other character by the base A.
\<close>

definition is_GC :: "char \<Rightarrow> bool" where
  "is_GC ch = (ch \<in> set ''GgCc'')"

definition is_N :: "char \<Rightarrow> bool" where
  "is_N ch = (ch \<in> set ''Nn'')"

definition as_A :: "char \<Rightarrow> char" where
  "as_A ch = (if is_GC ch \<or> is_N ch then ch else CHR ''A'')"

text \<open>
  The indices \<open>t, t + T, t + 2T, \<dots>\<close> below \<open>n\<close>, in this order: the interlaced
  assignment of the specification for worker \<open>t\<close> of \<open>T\<close>.
\<close>

definition interlaced_indices :: "nat \<Rightarrow> nat \<Rightarrow> nat \<Rightarrow> nat list" where
  "interlaced_indices T n t = map (\<lambda>j. t + j * T) [0..<(n - t + T - 1) div T]"

text \<open>A sequence of calls \<^verbatim>\<open>processSeq(index, th_id)\<close>, ended by the first fault.\<close>

fun run_calls :: "sect_cfg \<Rightarrow> (nat \<times> nat) list \<Rightarrow> sect_state \<Rightarrow> fault + sect_state" where
  "run_calls c [] st = Inr st"
| "run_calls c ((index, th_id) # calls) st =
     (case processSeq c index th_id st of
        Inl e \<Rightarrow> Inl e
      | Inr st' \<Rightarrow> run_calls c calls st')"

text \<open>The calls of worker \<open>t\<close> and of all workers of a batch of \<open>n\<close> records.\<close>

definition worker_calls :: "nat \<Rightarrow> nat \<Rightarrow> nat \<Rightarrow> (nat \<times> nat) list" where
  "worker_calls T n t = map (\<lambda>i. (i, t)) (interlaced_indices T n t)"

definition batch_calls :: "nat \<Rightarrow> nat \<Rightarrow> (nat \<times> nat) list" where
  "batch_calls T n = concat (map (worker_calls T n) [0..<T])"

text \<open>The row of the statistics table that belongs to a record.\<close>

definition expected_row :: "sect_cfg \<Rightarrow> string \<times> string \<Rightarrow> stat_row" where
  "expected_row c r =
     (fst r, average_cvg c (snd r), gc_perc (snd r), of_nat (length (snd r)),
      of_nat (nbNonZero_of c (snd r)), percentNonZero_of c (snd r))"

text \<open>The count vector that belongs to a sequence: none for a short one.\<close>

definition expected_counts :: "sect_cfg \<Rightarrow> string \<Rightarrow> 64 word list option" where
  "expected_counts c seq =
     (if length seq < unat (merLen c) then None else Some (fst (seq_counts c seq)))"

text \<open>
  A sequence whose two bin indices are defined and inside a grid of
  \<open>gcBins \<times> cvgBins\<close> cells.
\<close>

definition bins_ok :: "sect_cfg \<Rightarrow> string \<Rightarrow> bool" where
  "bins_ok c seq =
     (case gc_bin c (gc_perc seq) of
        None \<Rightarrow> False
      | Some x \<Rightarrow>
          (case cvg_bin c (average_cvg c seq) of
             None \<Rightarrow> False
           | Some y \<Rightarrow> unat x < unat (gcBins c) \<and> unat y < unat (cvgBins c)))"

text \<open>The base mass held by all thread matrices, and their common shape.\<close>

definition tm_total :: "threaded_matrix \<Rightarrow> nat" where
  "tm_total tm = sum_list (map matrix_sum (thread_mxs tm))"

definition has_shape :: "nat \<Rightarrow> nat \<Rightarrow> matrix \<Rightarrow> bool" where
  "has_shape w h m = (length m = w \<and> list_all (\<lambda>row. length row = h) m)"

definition tm_wf :: "threaded_matrix \<Rightarrow> bool" where
  "tm_wf tm = list_all (has_shape (tm_width tm) (tm_height tm)) (thread_mxs tm)"

text \<open>
  A threaded matrix that fits a configuration: one well-shaped grid of
  \<open>gcBins \<times> cvgBins\<close> cells for each thread.
\<close>

definition matrix_fits :: "sect_cfg \<Rightarrow> threaded_matrix \<Rightarrow> bool" where
  "matrix_fits c tm =
     (tm_wf tm \<and> tm_width tm = unat (gcBins c) \<and> tm_height tm = unat (cvgBins c)
      \<and> length (thread_mxs tm) = unat (threads c))"

text \<open>
  The state of a batch of \<open>n\<close> records: the vectors have \<open>n\<close> entries; the entry of a
  short sequence that \<^verbatim>\<open>processSeq\<close> does not write is still as created
  (\<open>slot_ready\<close>); the entries at an index hold the results of its record (\<open>slot_done\<close>).
\<close>

definition vectors_sized :: "nat \<Rightarrow> sect_state \<Rightarrow> bool" where
  "vectors_sized n st =
     (recordsInBatch st = n \<and> length (names st) = n \<and> length (seqs st) = n
      \<and> length (counts st) = n \<and> length (coverages st) = n \<and> length (gcs st) = n
      \<and> length (lengths st) = n \<and> length (nonZero st) = n \<and> length (percentNonZero st) = n)"

definition slot_ready :: "sect_cfg \<Rightarrow> sect_state \<Rightarrow> nat \<Rightarrow> bool" where
  "slot_ready c st i =
     (if length (seqs st ! i) < unat (merLen c)
      then counts st ! i = None \<and> coverages st ! i = Fin 0 else True)"

definition slot_done :: "sect_cfg \<Rightarrow> sect_state \<Rightarrow> nat \<Rightarrow> bool" where
  "slot_done c st i =
     (counts st ! i = expected_counts c (seqs st ! i)
      \<and> stat_row_of st i = expected_row c (names st ! i, seqs st ! i))"

definition batch_inv :: "sect_cfg \<Rightarrow> nat \<Rightarrow> sect_state \<Rightarrow> bool" where
  "batch_inv c n st = (vectors_sized n st \<and> (\<forall>i<n. slot_ready c st i))"

text \<open>The number of bases of the sequences of a list of calls, and of a list of records.\<close>

definition calls_mass :: "sect_state \<Rightarrow> (nat \<times> nat) list \<Rightarrow> nat" where
  "calls_mass st calls = sum_list (map (\<lambda>call. length (seqs st ! fst call)) calls)"

definition total_length :: "(string \<times> string) list \<Rightarrow> nat" where
  "total_length recs = sum_list (map (\<lambda>r. length (snd r)) recs)"

text \<open>
  The records of the next batch, a record whose sequence is shorter than the k-mer, and
  the two lines of the counts file that belong to a record.
\<close>

definition batch_of :: "(string \<times> string) list \<Rightarrow> (string \<times> string) list" where
  "batch_of recs = take BATCH_SIZE recs"

definition short_seq :: "sect_cfg \<Rightarrow> string \<times> string \<Rightarrow> bool" where
  "short_seq c r = (length (snd r) < unat (merLen c))"

definition counts_lines :: "sect_cfg \<Rightarrow> string \<times> string \<Rightarrow> string list" where
  "counts_lines c r = [''>'' @ fst r, counts_line (expected_counts c (snd r))]"

subsection \<open>Concrete inputs\<close>

definition count7 :: "bool \<Rightarrow> string \<Rightarrow> 64 word" where
  "count7 cn mer = 7"

definition count_tbl :: "bool \<Rightarrow> string \<Rightarrow> 64 word" where
  "count_tbl cn mer =
     (if mer = ''ACG'' then 5 else if mer = ''CGT'' then 1 else if mer = ''GTA'' then 3 else 0)"

definition count25 :: "bool \<Rightarrow> string \<Rightarrow> 64 word" where
  "count25 cn mer = 25"

definition lg0 :: "real \<Rightarrow> real" where
  "lg0 q = 0"

text \<open>The decimal logarithm at three powers of ten, where it is an integer.\<close>

definition lg_pow10 :: "real \<Rightarrow> real" where
  "lg_pow10 q = (if q = 100 then 2 else if q = 1000 then 3 else if q = 100000 then 5 else 0)"

definition cfg_k4 :: sect_cfg where
  "cfg_k4 =
     \<lparr>gcBins = 1001, cvgBins = 1001, cvgLogscale = False, threads = 1, merLen = 4,
      canonical = False, noCountStats = False, median = True, getCount = count7,
      log10_pos = lg0\<rparr>"

definition cfg_k3 :: sect_cfg where
  "cfg_k3 =
     \<lparr>gcBins = 1001, cvgBins = 1001, cvgLogscale = False, threads = 1, merLen = 3,
      canonical = False, noCountStats = False, median = True, getCount = count_tbl,
      log10_pos = lg0\<rparr>"

definition cfg_log :: sect_cfg where
  "cfg_log =
     \<lparr>gcBins = 1001, cvgBins = 1000, cvgLogscale = True, threads = 1, merLen = 4,
      canonical = False, noCountStats = False, median = True, getCount = count7,
      log10_pos = lg_pow10\<rparr>"

definition cfg_rect :: sect_cfg where
  "cfg_rect =
     \<lparr>gcBins = 4, cvgBins = 8, cvgLogscale = False, threads = 2, merLen = 3,
      canonical = False, noCountStats = False, median = True, getCount = count25,
      log10_pos = lg0\<rparr>"

definition cfg_small :: sect_cfg where
  "cfg_small =
     \<lparr>gcBins = 4, cvgBins = 4, cvgLogscale = False, threads = 2, merLen = 3,
      canonical = False, noCountStats = False, median = True, getCount = count7,
      log10_pos = lg0\<rparr>"

definition ok_recs :: "(string \<times> string) list" where
  "ok_recs = [(''s1'', ''ACGTA''), (''s2'', ''acgtNAC''), (''s3'', ''ACG'')]"

definition short_recs :: "(string \<times> string) list" where
  "short_recs = [(''s1'', ''AC''), (''s2'', ''ACGTA'')]"

text \<open>The states that the runs on the concrete inputs reach.\<close>

definition ok_batch :: sect_state where
  "ok_batch = load_batch ok_recs (init_state cfg_small)"

definition after_ok_batch :: sect_state where
  "after_ok_batch = projr (the (analyseBatch cfg_small ok_batch))"

definition after_ok_run :: sect_state where
  "after_ok_run = projr (the (execute cfg_small ok_recs))"

definition after_short_batch :: sect_state where
  "after_short_batch =
     projr (the (analyseBatch cfg_small (load_batch short_recs (init_state cfg_small))))"

text \<open>
  A single record whose sequence has GC fraction 1, the batch that holds it on a grid of
  \<open>4 \<times> 8\<close> cells, and the first call of \<^verbatim>\<open>processSeq\<close> of the run over
  \<open>short_recs\<close>, whose sequence is shorter than the k-mer.
\<close>

definition rect_recs :: "(string \<times> string) list" where
  "rect_recs = [(''s1'', ''GGCC'')]"

definition rect_batch :: sect_state where
  "rect_batch = load_batch rect_recs (init_state cfg_rect)"

definition short_call :: "fault + sect_state" where
  "short_call = processSeq cfg_small 0 0 (load_batch short_recs (init_state cfg_small))"

section \<open>Properties\<close>

subsection \<open>The window loop\<close>

lemma count_loop_fst:
  "i \<le> nbCounts \<Longrightarrow> length xs = nbCounts \<Longrightarrow>
   fst (count_loop c seq nbCounts i (xs, s)) = take i xs @ map (window_count c seq) [i..<nbCounts]"
proof (induction c seq nbCounts i "(xs, s)" arbitrary: xs s rule: count_loop.induct)
  case (1 c seq nbCounts i seqCounts sum64)
  show ?case
  proof (cases "i < nbCounts")
    case False
    with 1(3,4) show ?thesis by (subst count_loop.simps) simp
  next
    case True
    have upd: "take (Suc i) (seqCounts[i := v]) = take i seqCounts @ [v]" for v
      using True 1(4) by (simp add: take_Suc_conv_app_nth)
    have rng: "[i..<nbCounts] = i # [Suc i..<nbCounts]"
      using True by (simp add: upt_conv_Cons)
    show ?thesis
    proof (cases "validKmer (substr seq i (unat (merLen c)))")
      case False
      then show ?thesis
        using True 1(1)[OF True refl False] 1(4) upd[of 0] rng
        by (subst count_loop.simps) (simp add: window_count_def Let_def)
    next
      case v: True
      then show ?thesis
        using True 1(2)[OF True refl _ refl] 1(4) upd rng
        by (subst count_loop.simps) (simp add: window_count_def Let_def)
    qed
  qed
qed

lemma seq_counts_fst: "fst (seq_counts c seq) = map (window_count c seq) [0..<nbCounts_of c seq]"
  by (simp add: seq_counts_def count_loop_fst)

lemma seq_counts_length: "length (fst (seq_counts c seq)) = nbCounts_of c seq"
  by (simp add: seq_counts_fst)

lemma seq_counts_nth:
  "i < nbCounts_of c seq \<Longrightarrow> fst (seq_counts c seq) ! i = window_count c seq i"
  by (simp add: seq_counts_fst)

lemma validKmer_upper: "validKmer merstr = upper_acgt merstr"
  by (induction merstr) (auto simp: upper_acgt_def)

text \<open>
  C2, as stated, fails: the window \<open>acgt\<close> has all its bases in \<open>{A,C,G,T}\<close> when case is
  ignored and the lookup returns 7 for it, but the recorded count is 0, because
  \<^verbatim>\<open>validKmer\<close> accepts upper-case letters only.
\<close>

theorem lowercase_window_not_looked_up:
  "anycase_acgt (substr ''acgt'' 0 (unat (merLen cfg_k4)))
   \<and> getCount cfg_k4 (canonical cfg_k4) (substr ''acgt'' 0 (unat (merLen cfg_k4))) = 7
   \<and> fst (seq_counts cfg_k4 ''acgt'') ! 0 = 0"
  by (simp add: seq_counts_fst window_count_def nbCounts_of_def cfg_k4_def substr_def
      anycase_acgt_def count7_def)

text \<open>
  C2, amended: for a sequence of length at least \<open>k\<close> there is one count per window;
  the count of a window that contains any character other than the upper-case letters
  A, C, G, T is 0, whatever the lookup would return for it, and the count of any other
  window is the value of the lookup.
\<close>

theorem window_count_upper_case:
  assumes "unat (merLen c) \<le> length seq" and "i < length seq - unat (merLen c) + 1"
  shows "length (fst (seq_counts c seq)) = length seq - unat (merLen c) + 1
    \<and> fst (seq_counts c seq) ! i =
        (if upper_acgt (substr seq i (unat (merLen c)))
         then getCount c (canonical c) (substr seq i (unat (merLen c))) else 0)"
proof -
  have i: "i < nbCounts_of c seq"
    using assms by (simp add: nbCounts_of_def)
  show ?thesis
    using seq_counts_nth[OF i] seq_counts_length[of c seq]
    by (simp add: window_count_def validKmer_upper nbCounts_of_def)
qed

theorem window_count_upper_case_witness:
  "unat (merLen cfg_k4) \<le> length ''ACGTN'' \<and> 1 < length ''ACGTN'' - unat (merLen cfg_k4) + 1
   \<and> fst (seq_counts cfg_k4 ''ACGTN'') = [7, 0]"
  using window_count_upper_case[of cfg_k4 "''ACGTN''" 0]
    window_count_upper_case[of cfg_k4 "''ACGTN''" 1]
  by (simp add: cfg_k4_def upper_acgt_def substr_def count7_def list_eq_iff_nth_eq less_Suc_eq)

subsection \<open>Median coverage\<close>

lemma sorted_copy_unique: "sorted s \<Longrightarrow> mset s = mset xs \<Longrightarrow> s = sort xs"
  using properties_for_sort[of s xs] by simp

lemma seq_counts_ex: "fst (seq_counts cfg_k3 ''ACGTA'') = [5, 1, 3]"
  by (simp add: seq_counts_fst nbCounts_of_def cfg_k3_def window_count_def substr_def
      count_tbl_def upt_rec)

text \<open>
  C3: in median mode the coverage of a sequence of length at least \<open>k\<close> is the element at
  index \<open>len div 2\<close> of any ascending rearrangement \<open>s\<close> of its count vector, which has
  \<open>length - k + 1\<close> entries; the count vector \<open>[5,1,3]\<close> gives 3 and \<open>[1,2,3,4]\<close> gives 3.
\<close>

theorem median_coverage_upper_median:
  assumes "median c" and "unat (merLen c) \<le> length seq"
    and "sorted s" and "mset s = mset (fst (seq_counts c seq))"
  shows "average_cvg c seq = Fin (real (unat (s ! (length s div 2))))
    \<and> length s = length seq - unat (merLen c) + 1
    \<and> median_cvg [5, 1, 3] = Fin 3 \<and> median_cvg [1, 2, 3, 4] = Fin 3"
proof -
  have s: "s = sort (fst (seq_counts c seq))"
    using assms(3,4) by (rule sorted_copy_unique)
  have len: "length s = nbCounts_of c seq"
    using mset_eq_length[OF assms(4)] by (simp add: seq_counts_length)
  have avg: "average_cvg c seq = median_cvg (fst (seq_counts c seq))"
    using assms(1,2) by (simp add: average_cvg_def split_beta)
  have ex: "median_cvg [5, 1, 3] = Fin 3" "median_cvg [1, 2, 3, 4] = Fin 3"
    by (simp_all add: median_cvg_def word_le_nat_alt)
  show ?thesis
    using len ex by (simp add: avg median_cvg_def s nbCounts_of_def)
qed

theorem median_coverage_upper_median_witness:
  "median cfg_k3 \<and> unat (merLen cfg_k3) \<le> length ''ACGTA''
   \<and> sorted [1, 3, 5 :: 64 word] \<and> mset [1, 3, 5] = mset (fst (seq_counts cfg_k3 ''ACGTA''))
   \<and> average_cvg cfg_k3 ''ACGTA'' = Fin 3"
proof -
  have m: "median cfg_k3" and k: "unat (merLen cfg_k3) \<le> length ''ACGTA''"
    by (simp_all add: cfg_k3_def)
  have so: "sorted [1, 3, 5 :: 64 word]"
    by (simp add: word_le_nat_alt)
  have ms: "mset [1, 3, 5] = mset (fst (seq_counts cfg_k3 ''ACGTA''))"
    by (simp add: seq_counts_ex add_mset_commute)
  show ?thesis
    using median_coverage_upper_median[OF m k so ms] m k so ms by simp
qed

subsection \<open>The non-zero statistics\<close>

text \<open>
  C4, as stated, fails on the empty sequence: it is shorter than the k-mer, and its
  \<open>percentNonZero\<close> is the quotient \<open>0.0 / 0.0\<close>, which is NaN and not 0.
\<close>

theorem percentNonZero_empty_sequence_nan:
  "length ([] :: string) < unat (merLen cfg_k4) \<and> percentNonZero_of cfg_k4 [] = NaN
   \<and> NaN \<noteq> Fin 0"
  by (simp add: percentNonZero_of_def nbNonZero_of_def dbl_div_u64_def cfg_k4_def)

text \<open>
  C4, amended: for every sequence that is not empty the counter of non-zero windows is
  incremented at most once, and \<open>percentNonZero\<close> is 0 when the sequence is shorter than
  \<open>k\<close> and \<open>1 / length\<close> otherwise, whatever the counts of the windows are (the lookup
  \<open>f\<close> is arbitrary).
\<close>

theorem percentNonZero_degenerate:
  assumes "0 < length seq"
  shows "nbNonZero_of c seq \<le> 1
    \<and> percentNonZero_of c seq =
        (if length seq < unat (merLen c) then Fin 0 else Fin (1 / real (length seq)))
    \<and> percentNonZero_of (c\<lparr>getCount := f\<rparr>) seq = percentNonZero_of c seq"
  using assms by (simp add: percentNonZero_of_def nbNonZero_of_def dbl_div_u64_def)

theorem percentNonZero_degenerate_witness:
  "0 < length ''ACGTACGT'' \<and> percentNonZero_of cfg_k4 ''ACGTACGT'' = Fin (1 / 8)
   \<and> percentNonZero_of cfg_k4 ''ACG'' = Fin 0"
  using percentNonZero_degenerate[of "''ACGTACGT''" cfg_k4 count7]
    percentNonZero_degenerate[of "''ACG''" cfg_k4 count7]
  by (simp add: cfg_k4_def)

subsection \<open>GC fraction\<close>

lemma gc_loop_counts:
  "gc_loop seq (gs, cs, ns) =
     (gs + length (filter (\<lambda>ch. ch = CHR ''G'' \<or> ch = CHR ''g'') seq),
      cs + length (filter (\<lambda>ch. ch = CHR ''C'' \<or> ch = CHR ''c'') seq),
      ns + length (filter (\<lambda>ch. ch = CHR ''N'' \<or> ch = CHR ''n'') seq))"
  by (induction seq arbitrary: gs cs ns) auto

text \<open>
  C8: the GC fraction is the quotient of \<open>gs + cs\<close> by \<open>length - ns\<close>, where \<open>gs\<close>, \<open>cs\<close>
  and \<open>ns\<close> count the letters G, C and N in either case; it is 1 for \<open>GGCC\<close>, 0 for
  \<open>ATAT\<close> and 1 for \<open>GGNN\<close>.
\<close>

theorem gc_perc_formula:
  "gc_perc seq =
     dbl_div_u64 (length (filter (\<lambda>ch. ch = CHR ''G'' \<or> ch = CHR ''g'') seq)
                  + length (filter (\<lambda>ch. ch = CHR ''C'' \<or> ch = CHR ''c'') seq))
                 (length seq - length (filter (\<lambda>ch. ch = CHR ''N'' \<or> ch = CHR ''n'') seq))
   \<and> gc_perc ''GGCC'' = Fin 1 \<and> gc_perc ''ATAT'' = Fin 0 \<and> gc_perc ''GGNN'' = Fin 1"
  by (simp add: gc_perc_def gc_loop_counts dbl_div_u64_def)

lemma gc_loop_as_A: "gc_loop (map as_A seq) acc = gc_loop seq acc"
proof (induction seq arbitrary: acc)
  case Nil
  show ?case by simp
next
  case (Cons ch seq)
  obtain gs cs ns where acc: "acc = (gs, cs, ns)" by (cases acc)
  show ?case
  proof (cases "is_GC ch \<or> is_N ch")
    case True
    then have "as_A ch = ch" by (simp add: as_A_def)
    then show ?thesis by (simp add: acc Cons.IH)
  next
    case False
    then have "as_A ch = CHR ''A''"
      and "ch \<noteq> CHR ''G''" "ch \<noteq> CHR ''g''" "ch \<noteq> CHR ''C''" "ch \<noteq> CHR ''c''"
      and "ch \<noteq> CHR ''N''" "ch \<noteq> CHR ''n''"
      by (auto simp: as_A_def is_GC_def is_N_def)
    then show ?thesis by (simp add: acc Cons.IH)
  qed
qed

lemma filter_not_N:
  "length seq - length (filter is_N seq) = length (filter (\<lambda>ch. \<not> is_N ch) seq)"
  using sum_length_filter_compl[of is_N seq] by simp

lemma filter_GC:
  "length (filter (\<lambda>ch. ch = CHR ''G'' \<or> ch = CHR ''g'') seq)
   + length (filter (\<lambda>ch. ch = CHR ''C'' \<or> ch = CHR ''c'') seq) = length (filter is_GC seq)"
  by (induction seq) (auto simp: is_GC_def)

lemma is_N_eq: "(\<lambda>ch. ch = CHR ''N'' \<or> ch = CHR ''n'') = is_N"
  by (auto simp: is_N_def fun_eq_iff)

lemma gc_perc_eq:
  "gc_perc seq = dbl_div_u64 (length (filter is_GC seq)) (length (filter (\<lambda>ch. \<not> is_N ch) seq))"
  by (simp add: gc_perc_def gc_loop_counts filter_GC is_N_eq filter_not_N)

text \<open>
  C10: replacing every character other than G, C and N (in either case) by the base A
  changes neither the counters nor the GC fraction; the numerator counts the letters
  G and C only, the denominator every character that is not the letter N.
\<close>

theorem gc_other_chars_as_A:
  "gc_loop (map as_A seq) (0, 0, 0) = gc_loop seq (0, 0, 0)
   \<and> gc_perc (map as_A seq) = gc_perc seq
   \<and> gc_perc seq =
       dbl_div_u64 (length (filter is_GC seq)) (length (filter (\<lambda>ch. \<not> is_N ch) seq))"
  using gc_perc_eq[of seq] by (simp add: gc_perc_def gc_loop_as_A)

subsection \<open>The matrix\<close>

lemma sum_list_map_update:
  "k < length xs \<Longrightarrow> f a = f (xs ! k) + (v::nat) \<Longrightarrow>
   sum_list (map f (xs[k := a])) = sum_list (map f xs) + v"
proof (induction xs arbitrary: k)
  case Nil
  then show ?case by simp
next
  case (Cons x xs)
  then show ?case by (cases k) simp_all
qed

lemma sum_list_update_add:
  "k < length xs \<Longrightarrow> sum_list (xs[k := xs ! k + (v::nat)]) = sum_list xs + v"
  using sum_list_map_update[of k xs id "xs ! k + v" v] by simp

lemma matrix_sum_inc:
  assumes "in_matrix m x y"
  shows "matrix_sum (matrix_inc m x y v) = matrix_sum m + v"
proof -
  have x: "x < length m" and y: "y < length (m ! x)"
    using assms by (simp_all add: in_matrix_def)
  have "sum_list ((m ! x)[y := m ! x ! y + v]) = sum_list (m ! x) + v"
    using y by (rule sum_list_update_add)
  then show ?thesis
    unfolding matrix_sum_def matrix_inc_def by (rule sum_list_map_update[OF x])
qed

lemma has_shape_inc: "has_shape w h m \<Longrightarrow> has_shape w h (matrix_inc m x y v)"
  by (cases "x < length m")
     (auto simp: has_shape_def matrix_inc_def list_all_length nth_list_update)

lemma incTM_total:
  assumes "incTM tm th x y v = Some tm'"
  shows "tm_total tm' = tm_total tm + v"
proof -
  have th: "th < length (thread_mxs tm)" and inm: "in_matrix (thread_mxs tm ! th) x y"
    and tm': "tm' = tm\<lparr>thread_mxs := (thread_mxs tm)[th := matrix_inc (thread_mxs tm ! th) x y v]\<rparr>"
    using assms by (auto simp: incTM_def split: if_splits)
  show ?thesis
    unfolding tm_total_def tm' using sum_list_map_update[OF th matrix_sum_inc[OF inm]]
    by simp
qed

lemma incTM_wf:
  assumes "incTM tm th x y v = Some tm'" and "tm_wf tm"
  shows "tm_wf tm' \<and> tm_width tm' = tm_width tm \<and> tm_height tm' = tm_height tm
    \<and> length (thread_mxs tm') = length (thread_mxs tm)"
proof -
  have th: "th < length (thread_mxs tm)"
    and tm': "tm' = tm\<lparr>thread_mxs := (thread_mxs tm)[th := matrix_inc (thread_mxs tm ! th) x y v]\<rparr>"
    using assms(1) by (auto simp: incTM_def split: if_splits)
  have "has_shape (tm_width tm) (tm_height tm) (thread_mxs tm ! th)"
    using assms(2) th by (simp add: tm_wf_def list_all_length)
  then have "has_shape (tm_width tm) (tm_height tm) (matrix_inc (thread_mxs tm ! th) x y v)"
    by (rule has_shape_inc)
  then show ?thesis
    using assms(2) th by (auto simp: tm' tm_wf_def list_all_length nth_list_update)
qed

lemma sum_list_map2_add:
  "length xs = length ys \<Longrightarrow> sum_list (map2 (+) xs ys) = sum_list xs + sum_list (ys :: nat list)"
  by (induction xs ys rule: list_induct2) auto

lemma matrix_add_sum:
  "has_shape w h a \<Longrightarrow> has_shape w h b \<Longrightarrow>
   matrix_sum (matrix_add a b) = matrix_sum a + matrix_sum b \<and> has_shape w h (matrix_add a b)"
proof (induction a arbitrary: b w)
  case Nil
  then show ?case by (simp add: matrix_add_def matrix_sum_def has_shape_def)
next
  case (Cons r a)
  obtain r' b' where b: "b = r' # b'"
    using Cons.prems by (cases b) (auto simp: has_shape_def)
  have sh: "has_shape (length a) h a" "has_shape (length a) h b'" "length r = h" "length r' = h"
    using Cons.prems by (auto simp: has_shape_def b)
  have len: "length (r # a) = w"
    using Cons.prems by (simp add: has_shape_def)
  show ?case
    using Cons.IH[OF sh(1,2)] sh(3,4) len
    by (simp add: b matrix_add_def matrix_sum_def has_shape_def sum_list_map2_add)
qed

lemma fold_matrix_add_sum:
  "list_all (has_shape w h) ms \<Longrightarrow> has_shape w h z \<Longrightarrow>
   matrix_sum (fold matrix_add ms z) = matrix_sum z + sum_list (map matrix_sum ms)"
proof (induction ms arbitrary: z)
  case Nil
  show ?case by simp
next
  case (Cons m ms)
  have m: "has_shape w h m" and ms: "list_all (has_shape w h) ms"
    using Cons.prems(1) by simp_all
  from matrix_add_sum[OF m Cons.prems(2)]
  have s: "matrix_sum (matrix_add m z) = matrix_sum m + matrix_sum z"
    and sh: "has_shape w h (matrix_add m z)" by simp_all
  show ?case
    using Cons.IH[OF ms sh] s by simp
qed

lemma new_matrix_shape: "has_shape w h (new_matrix w h)"
  by (simp add: has_shape_def new_matrix_def list_all_iff)

lemma new_matrix_sum: "matrix_sum (new_matrix w h) = 0"
  by (simp add: matrix_sum_def new_matrix_def)

lemma merge_sum:
  "tm_wf tm \<Longrightarrow> matrix_sum (final_mx (mergeThreadedMatricies tm)) = tm_total tm"
  using fold_matrix_add_sum[OF _ new_matrix_shape, of "tm_width tm" "tm_height tm" "thread_mxs tm"]
  by (simp add: mergeThreadedMatricies_def Let_def tm_wf_def tm_total_def new_matrix_sum)

lemma new_tm_wf: "tm_wf (new_threaded_matrix w h t) \<and> tm_total (new_threaded_matrix w h t) = 0"
  by (simp add: tm_wf_def new_threaded_matrix_def new_matrix_shape list_all_iff tm_total_def
      new_matrix_sum)

subsection \<open>Interlaced assignment\<close>

lemma interlaced_count:
  fixes T n t j :: nat
  assumes T: "0 < T"
  shows "(j < (n - t + T - 1) div T) = (t + j * T < n)"
proof -
  have "(j < (n - t + T - 1) div T) = (Suc j \<le> (n - t + T - 1) div T)"
    by auto
  also have "\<dots> = (Suc j * T \<le> n - t + T - 1)"
    using T by (simp add: less_eq_div_iff_mult_less_eq)
  also have "\<dots> = (t + j * T < n)"
    using T by (cases "t < n") auto
  finally show ?thesis .
qed

lemma interlaced_nil: "\<not> i < n \<Longrightarrow> interlaced_indices T n i = []"
  by (cases "T = 0") (simp_all add: interlaced_indices_def)

lemma interlaced_cons:
  assumes T: "0 < T" and i: "i < n"
  shows "interlaced_indices T n i = i # interlaced_indices T n (i + T)"
proof -
  have cnt: "(n - i + T - 1) div T = Suc ((n - (i + T) + T - 1) div T)"
  proof (cases "i + T \<le> n")
    case True
    then have "n - i + T - 1 = (n - (i + T) + T - 1) + T"
      using T by simp
    then show ?thesis
      using T by (simp only: div_add_self2)
  next
    case False
    then have a: "n - (i + T) + T - 1 = T - 1" and b: "n - i + T - 1 = (n - i - 1) + T"
      and c: "n - i - 1 < T"
      using i T by simp_all
    have "(T - 1) div T = 0" using T by simp
    moreover have "(n - i + T - 1) div T = Suc ((n - i - 1) div T)"
      using T by (simp only: b div_add_self2)
    ultimately show ?thesis
      using c by (simp add: a)
  qed
  have f: "(\<lambda>j. i + Suc j * T) = (\<lambda>j. i + T + j * T)"
    by (simp add: fun_eq_iff)
  show ?thesis
    unfolding interlaced_indices_def cnt map_upt_Suc f by simp
qed

lemma set_interlaced:
  assumes "0 < T" and "t < T"
  shows "set (interlaced_indices T n t) = {i. i < n \<and> i mod T = t}"
proof -
  define m where "m = (n - t + T - 1) div T"
  have m: "(j < m) = (t + j * T < n)" for j
    unfolding m_def using assms(1) by (rule interlaced_count)
  have "set (interlaced_indices T n t) = {t + j * T |j. t + j * T < n}"
    unfolding interlaced_indices_def m_def[symmetric] by (auto simp: m)
  also have "\<dots> = {i. i < n \<and> i mod T = t}"
  proof (intro set_eqI iffI; clarsimp)
    fix j assume "t + j * T < n"
    show "t mod T = t" using assms(2) by simp
  next
    fix i assume "i < n" "t = i mod T"
    then show "\<exists>j. i = i mod T + j * T \<and> i mod T + j * T < n"
      by (intro exI[of _ "i div T"]) simp
  qed
  finally show ?thesis .
qed

lemma distinct_interlaced: "0 < T \<Longrightarrow> distinct (interlaced_indices T n t)"
  by (simp add: interlaced_indices_def distinct_map inj_on_def)

lemma worker_unique:
  assumes "0 < T" and "i < n"
  shows "\<exists>!w. w < T \<and> i \<in> set (interlaced_indices T n w)"
proof
  show "i mod T < T \<and> i \<in> set (interlaced_indices T n (i mod T))"
    using assms by (simp add: set_interlaced)
next
  fix w assume "w < T \<and> i \<in> set (interlaced_indices T n w)"
  then show "w = i mod T"
    using assms(1) by (auto simp: set_interlaced)
qed

lemma loop_run_calls:
  assumes "0 < unat (threads c)"
  shows "processInterlaced_loop c th n i st =
     Some (run_calls c (map (\<lambda>j. (j, th)) (interlaced_indices (unat (threads c)) n i)) st)"
proof (induction "n - i" arbitrary: i st rule: less_induct)
  case less
  show ?case
  proof (cases "i < n")
    case False
    then show ?thesis
      by (subst processInterlaced_loop.simps) (simp add: interlaced_nil)
  next
    case True
    have dec: "n - (i + unat (threads c)) < n - i"
      using True assms by simp
    show ?thesis
      using True less[OF dec]
      by (subst processInterlaced_loop.simps)
         (simp add: interlaced_cons[OF assms True] split: sum.splits)
  qed
qed

lemma run_calls_append:
  "run_calls c (xs @ ys) st =
     (case run_calls c xs st of Inl e \<Rightarrow> Inl e | Inr st' \<Rightarrow> run_calls c ys st')"
  by (induction xs arbitrary: st) (auto split: sum.splits)

subsection \<open>One call of processSeq\<close>

lemma store_results_frame:
  "names (store_results c i st) = names st"
  "seqs (store_results c i st) = seqs st"
  "recordsInBatch (store_results c i st) = recordsInBatch st"
  "bucket_size (store_results c i st) = bucket_size st"
  "remaining (store_results c i st) = remaining st"
  "offset (store_results c i st) = offset st"
  "contamination_mx (store_results c i st) = contamination_mx st"
  "counts_cvg (store_results c i st) = counts_cvg st"
  "stats_csv (store_results c i st) = stats_csv st"
  by (simp_all add: store_results_def Let_def)

lemma store_results_sized:
  "vectors_sized n (store_results c i st) = vectors_sized n st"
  by (simp add: store_results_def Let_def vectors_sized_def)

lemma store_results_cerr:
  "cerr (store_results c i st) =
     cerr st @ (if length (seqs st ! i) < unat (merLen c)
                then [too_short_msg c (names st ! i) (seqs st ! i)] else [])"
  by (simp add: store_results_def Let_def)

lemma store_results_other:
  "j \<noteq> i \<Longrightarrow> counts (store_results c i st) ! j = counts st ! j
     \<and> coverages (store_results c i st) ! j = coverages st ! j
     \<and> stat_row_of (store_results c i st) j = stat_row_of st j"
  by (simp add: store_results_def Let_def stat_row_of_def)

lemma average_cvg_short: "length seq < unat (merLen c) \<Longrightarrow> average_cvg c seq = Fin 0"
  by (simp add: average_cvg_def)

lemma store_results_done:
  assumes "vectors_sized n st" and "i < n" and "slot_ready c st i"
  shows "slot_done c (store_results c i st) i"
  using assms
  by (simp add: store_results_def Let_def vectors_sized_def slot_ready_def slot_done_def
      stat_row_of_def expected_row_def expected_counts_def average_cvg_short)

lemma processSeq_InrD:
  assumes "processSeq c i th st = Inr st'"
  shows "\<exists>x y tm. incTM (contamination_mx st) th x y (length (seqs st ! i)) = Some tm
           \<and> st' = (store_results c i st)\<lparr>contamination_mx := tm\<rparr>"
  using assms
  by (auto simp: processSeq_def Let_def store_results_frame split: option.splits)

lemma slot_done_ready: "slot_done c st i \<Longrightarrow> slot_ready c st i"
  by (auto simp: slot_done_def slot_ready_def expected_counts_def expected_row_def
      stat_row_of_def average_cvg_short)

lemma mx_update_frame:
  "vectors_sized n (st\<lparr>contamination_mx := tm\<rparr>) = vectors_sized n st"
  "slot_done c (st\<lparr>contamination_mx := tm\<rparr>) i = slot_done c st i"
  "slot_ready c (st\<lparr>contamination_mx := tm\<rparr>) i = slot_ready c st i"
  "stat_row_of (st\<lparr>contamination_mx := tm\<rparr>) i = stat_row_of st i"
  by (simp_all add: vectors_sized_def slot_done_def slot_ready_def stat_row_of_def)

lemma processSeq_frame:
  assumes "processSeq c i th st = Inr st'"
  shows "names st' = names st \<and> seqs st' = seqs st \<and> recordsInBatch st' = recordsInBatch st
    \<and> bucket_size st' = bucket_size st \<and> offset st' = offset st
    \<and> counts_cvg st' = counts_cvg st \<and> stats_csv st' = stats_csv st
    \<and> vectors_sized n st' = vectors_sized n st
    \<and> cerr st' = cerr st @ (if length (seqs st ! i) < unat (merLen c)
                             then [too_short_msg c (names st ! i) (seqs st ! i)] else [])"
  using processSeq_InrD[OF assms]
  by (auto simp: store_results_frame store_results_sized store_results_cerr mx_update_frame)

lemma processSeq_matrix:
  assumes "processSeq c i th st = Inr st'"
  shows "tm_total (contamination_mx st') = tm_total (contamination_mx st) + length (seqs st ! i)
    \<and> (tm_wf (contamination_mx st) \<longrightarrow>
         tm_wf (contamination_mx st')
         \<and> tm_width (contamination_mx st') = tm_width (contamination_mx st)
         \<and> tm_height (contamination_mx st') = tm_height (contamination_mx st)
         \<and> length (thread_mxs (contamination_mx st')) = length (thread_mxs (contamination_mx st)))"
proof -
  obtain x y tm where inc: "incTM (contamination_mx st) th x y (length (seqs st ! i)) = Some tm"
    and st': "st' = (store_results c i st)\<lparr>contamination_mx := tm\<rparr>"
    using processSeq_InrD[OF assms] by blast
  show ?thesis
    using incTM_total[OF inc] incTM_wf[OF inc] by (simp add: st')
qed

lemma processSeq_slots:
  assumes "processSeq c i th st = Inr st'" and "batch_inv c n st" and "i < n"
  shows "batch_inv c n st' \<and> slot_done c st' i \<and> (\<forall>j. slot_done c st j \<longrightarrow> slot_done c st' j)"
proof -
  obtain tm where st': "st' = (store_results c i st)\<lparr>contamination_mx := tm\<rparr>"
    using processSeq_InrD[OF assms(1)] by blast
  have sized: "vectors_sized n st" and ready: "slot_ready c st i"
    using assms(2,3) by (simp_all add: batch_inv_def)
  have done_i: "slot_done c st' i"
    using store_results_done[OF sized assms(3) ready] by (simp add: st' mx_update_frame)
  have other: "slot_done c st' j = slot_done c st j" "slot_ready c st' j = slot_ready c st j"
    if "j \<noteq> i" for j
    using store_results_other[OF that, of c st]
    by (simp_all add: st' mx_update_frame slot_done_def slot_ready_def store_results_frame)
  have keep: "slot_done c st' j" if "slot_done c st j" for j
    using that done_i other(1)[of j] by (cases "j = i") simp_all
  have rdy: "slot_ready c st' j" if "j < n" for j
  proof (cases "j = i")
    case True
    then show ?thesis using done_i by (simp add: slot_done_ready)
  next
    case False
    then show ?thesis using other(2)[of j] assms(2) that by (simp add: batch_inv_def)
  qed
  have "vectors_sized n st'"
    using sized by (simp add: st' mx_update_frame store_results_sized)
  then show ?thesis
    using done_i keep rdy by (simp add: batch_inv_def)
qed

lemma run_calls_frame:
  "run_calls c calls st = Inr st' \<Longrightarrow>
   names st' = names st \<and> seqs st' = seqs st \<and> recordsInBatch st' = recordsInBatch st
   \<and> bucket_size st' = bucket_size st \<and> offset st' = offset st
   \<and> counts_cvg st' = counts_cvg st \<and> stats_csv st' = stats_csv st
   \<and> vectors_sized n st' = vectors_sized n st"
proof (induction calls arbitrary: st)
  case Nil
  then show ?case by simp
next
  case (Cons call calls)
  obtain i th where call: "call = (i, th)" by (cases call)
  obtain st1 where p: "processSeq c i th st = Inr st1" and r: "run_calls c calls st1 = Inr st'"
    using Cons.prems by (auto simp: call split: sum.splits)
  show ?case
    using Cons.IH[OF r] processSeq_frame[OF p, of n] by simp
qed

lemma run_calls_matrix:
  "run_calls c calls st = Inr st' \<Longrightarrow>
   tm_total (contamination_mx st') = tm_total (contamination_mx st) + calls_mass st calls
   \<and> (tm_wf (contamination_mx st) \<longrightarrow>
        tm_wf (contamination_mx st')
        \<and> tm_width (contamination_mx st') = tm_width (contamination_mx st)
        \<and> tm_height (contamination_mx st') = tm_height (contamination_mx st)
        \<and> length (thread_mxs (contamination_mx st')) = length (thread_mxs (contamination_mx st)))"
proof (induction calls arbitrary: st)
  case Nil
  then show ?case by (simp add: calls_mass_def)
next
  case (Cons call calls)
  obtain i th where call: "call = (i, th)" by (cases call)
  obtain st1 where p: "processSeq c i th st = Inr st1" and r: "run_calls c calls st1 = Inr st'"
    using Cons.prems by (auto simp: call split: sum.splits)
  have seqs1: "seqs st1 = seqs st"
    using processSeq_frame[OF p, of 0] by simp
  show ?case
    using Cons.IH[OF r] processSeq_matrix[OF p] seqs1 by (simp add: calls_mass_def call)
qed

lemma run_calls_slots:
  "run_calls c calls st = Inr st' \<Longrightarrow> batch_inv c n st \<Longrightarrow> \<forall>call \<in> set calls. fst call < n \<Longrightarrow>
   batch_inv c n st' \<and> (\<forall>call \<in> set calls. slot_done c st' (fst call))
   \<and> (\<forall>j. slot_done c st j \<longrightarrow> slot_done c st' j)"
proof (induction calls arbitrary: st)
  case Nil
  then show ?case by simp
next
  case (Cons call calls)
  obtain i th where call: "call = (i, th)" by (cases call)
  obtain st1 where p: "processSeq c i th st = Inr st1" and r: "run_calls c calls st1 = Inr st'"
    using Cons.prems(1) by (auto simp: call split: sum.splits)
  have i: "i < n" and rest: "\<forall>call \<in> set calls. fst call < n"
    using Cons.prems(3) by (simp_all add: call)
  note s1 = processSeq_slots[OF p Cons.prems(2) i]
  have inv1: "batch_inv c n st1" using s1 by simp
  note s2 = Cons.IH[OF r inv1 rest]
  show ?case
    using s1 s2 by (simp add: call)
qed

lemma analyseBatchSlice_run:
  assumes "0 < unat (threads c)"
  shows "analyseBatchSlice c t st =
     Some (run_calls c (worker_calls (unat (threads c)) (recordsInBatch st) t) st)"
proof (cases "bucket_size st < 1 \<and> recordsInBatch st \<le> t")
  case True
  then have "interlaced_indices (unat (threads c)) (recordsInBatch st) t = []"
    by (intro interlaced_nil) simp
  with True show ?thesis
    by (simp add: analyseBatchSlice_def worker_calls_def)
next
  case False
  then show ?thesis
    by (auto simp: analyseBatchSlice_def processInterlaced_def worker_calls_def
        loop_run_calls[OF assms])
qed

lemma run_workers_run:
  assumes "0 < unat (threads c)"
  shows "run_workers c ts st =
     Some (run_calls c (concat (map (worker_calls (unat (threads c)) (recordsInBatch st)) ts)) st)"
proof (induction ts arbitrary: st)
  case Nil
  show ?case by simp
next
  case (Cons t ts)
  show ?case
  proof (cases "run_calls c (worker_calls (unat (threads c)) (recordsInBatch st) t) st")
    case (Inl e)
    then show ?thesis
      by (simp add: analyseBatchSlice_run[OF assms] run_calls_append)
  next
    case (Inr st1)
    have "recordsInBatch st1 = recordsInBatch st"
      using run_calls_frame[OF Inr, of 0] by simp
    then show ?thesis
      using Inr Cons.IH[of st1]
      by (simp add: analyseBatchSlice_run[OF assms] run_calls_append)
  qed
qed

lemma analyseBatch_run:
  "0 < unat (threads c) \<Longrightarrow>
   analyseBatch c st = Some (run_calls c (batch_calls (unat (threads c)) (recordsInBatch st)) st)"
  by (simp add: analyseBatch_def batch_calls_def run_workers_run)

lemma set_worker_calls:
  "0 < T \<Longrightarrow> t < T \<Longrightarrow> fst ` set (worker_calls T n t) = {i. i < n \<and> i mod T = t}"
  by (simp add: worker_calls_def image_image set_interlaced)

lemma batch_calls_indices: 
  assumes "0 < T"
  shows "fst ` set (batch_calls T n) = {i. i < n}"
proof -
  have "fst ` set (batch_calls T n) = (\<Union>t\<in>{0..<T}. fst ` set (worker_calls T n t))"
    by (auto simp: batch_calls_def)
  also have "\<dots> = (\<Union>t\<in>{0..<T}. {i. i < n \<and> i mod T = t})"
    using assms by (simp add: set_worker_calls)
  also have "\<dots> = {i. i < n}"
    using assms by auto
  finally show ?thesis .
qed

lemma worker_mass:
  fixes f :: "nat \<Rightarrow> nat"
  assumes "0 < T" and "t < T"
  shows "sum_list (map (\<lambda>call. f (fst call)) (worker_calls T n t))
       = sum f {i. i < n \<and> i mod T = t}"
proof -
  have "sum_list (map (\<lambda>call. f (fst call)) (worker_calls T n t))
      = sum_list (map f (interlaced_indices T n t))"
    by (simp add: worker_calls_def comp_def)
  also have "\<dots> = sum f (set (interlaced_indices T n t))"
    using distinct_interlaced[OF assms(1)] by (simp add: sum_list_distinct_conv_sum_set)
  finally show ?thesis
    using assms by (simp add: set_interlaced)
qed

lemma workers_mass:
  fixes f :: "nat \<Rightarrow> nat"
  assumes "0 < T" and "w \<le> T"
  shows "sum_list (map (\<lambda>call. f (fst call)) (concat (map (worker_calls T n) [0..<w])))
       = sum f {i. i < n \<and> i mod T < w}"
  using assms(2)
proof (induction w)
  case 0
  show ?case by simp
next
  case (Suc w)
  have w: "w < T" and le: "w \<le> T" using Suc.prems by simp_all
  have split: "{i. i < n \<and> i mod T < Suc w}
      = {i. i < n \<and> i mod T < w} \<union> {i. i < n \<and> i mod T = w}"
    by auto
  have "sum f {i. i < n \<and> i mod T < Suc w}
      = sum f {i. i < n \<and> i mod T < w} + sum f {i. i < n \<and> i mod T = w}"
    unfolding split by (rule sum.union_disjoint) auto
  then show ?case
    using Suc.IH[OF le] worker_mass[OF assms(1) w, of f n] by simp
qed

lemma batch_mass:
  fixes f :: "nat \<Rightarrow> nat"
  assumes "0 < T"
  shows "sum_list (map (\<lambda>call. f (fst call)) (batch_calls T n)) = sum_list (map f [0..<n])"
proof -
  have "{i. i < n \<and> i mod T < T} = {0..<n}"
    using assms by auto
  then have "sum_list (map (\<lambda>call. f (fst call)) (batch_calls T n)) = sum f {0..<n}"
    using workers_mass[OF assms order_refl, of f n] by (simp add: batch_calls_def)
  also have "\<dots> = sum_list (map f [0..<n])"
    by (simp add: sum_list_distinct_conv_sum_set)
  finally show ?thesis .
qed

subsection \<open>One batch\<close>

lemma map_nth_fun: "map (\<lambda>i. f (xs ! i)) [0..<length xs] = map f xs"
  by (rule nth_equalityI) simp_all

lemma load_batch_frame:
  "names (load_batch recs st) = map fst (batch_of recs)"
  "seqs (load_batch recs st) = map snd (batch_of recs)"
  "recordsInBatch (load_batch recs st) = length (batch_of recs)"
  "contamination_mx (load_batch recs st) = contamination_mx st"
  "counts_cvg (load_batch recs st) = counts_cvg st"
  "stats_csv (load_batch recs st) = stats_csv st"
  "cerr (load_batch recs st) = cerr st"
  "bucket_size (load_batch recs st) = bucket_size st"
  by (simp_all add: load_batch_def createBatchVars_def batch_of_def)

lemma load_batch_inv: "batch_inv c (length (batch_of recs)) (load_batch recs st)"
  by (simp add: batch_inv_def vectors_sized_def slot_ready_def load_batch_def
      createBatchVars_def batch_of_def)

lemma analyseBatch_effect:
  assumes T: "0 < unat (threads c)"
    and run: "analyseBatch c (load_batch recs st) = Some (Inr st1)"
  shows "names st1 = map fst (batch_of recs)" and "seqs st1 = map snd (batch_of recs)"
    and "recordsInBatch st1 = length (batch_of recs)"
    and "counts_cvg st1 = counts_cvg st" and "stats_csv st1 = stats_csv st"
    and "length (counts st1) = length (batch_of recs)"
    and "\<forall>i < length (batch_of recs). slot_done c st1 i"
    and "tm_total (contamination_mx st1) = tm_total (contamination_mx st) + total_length (batch_of recs)"
    and "tm_wf (contamination_mx st) \<Longrightarrow>
         tm_wf (contamination_mx st1)
         \<and> tm_width (contamination_mx st1) = tm_width (contamination_mx st)
         \<and> tm_height (contamination_mx st1) = tm_height (contamination_mx st)"
proof -
  let ?n = "length (batch_of recs)"
  let ?st0 = "load_batch recs st"
  let ?calls = "batch_calls (unat (threads c)) ?n"
  have rc: "run_calls c ?calls ?st0 = Inr st1"
    using run analyseBatch_run[OF T, of ?st0] by (simp add: load_batch_frame)
  note fr = run_calls_frame[OF rc, of ?n]
  show "names st1 = map fst (batch_of recs)" "seqs st1 = map snd (batch_of recs)"
    "recordsInBatch st1 = length (batch_of recs)"
    "counts_cvg st1 = counts_cvg st" "stats_csv st1 = stats_csv st"
    using fr by (simp_all add: load_batch_frame)
  have idx: "fst ` set ?calls = {i. i < ?n}"
    using T by (rule batch_calls_indices)
  then have lt: "\<forall>call \<in> set ?calls. fst call < ?n"
    by auto
  note sl = run_calls_slots[OF rc load_batch_inv lt]
  show "length (counts st1) = ?n"
    using sl by (simp add: batch_inv_def vectors_sized_def)
  show "\<forall>i < ?n. slot_done c st1 i"
  proof (intro allI impI)
    fix i assume "i < ?n"
    then have "i \<in> fst ` set ?calls" using idx by simp
    then show "slot_done c st1 i" using sl by auto
  qed
  have mass: "calls_mass ?st0 ?calls = total_length (batch_of recs)"
  proof -
    have "calls_mass ?st0 ?calls = sum_list (map (\<lambda>i. length (map snd (batch_of recs) ! i)) [0..<?n])"
      unfolding calls_mass_def load_batch_frame using T by (rule batch_mass)
    also have "\<dots> = sum_list (map (\<lambda>i. length (snd (batch_of recs ! i))) [0..<?n])"
      by (intro arg_cong[where f = sum_list] map_cong) simp_all
    also have "\<dots> = total_length (batch_of recs)"
      unfolding total_length_def
      using map_nth_fun[of "\<lambda>r. length (snd r)" "batch_of recs"] by simp
    finally show ?thesis .
  qed
  note mx = run_calls_matrix[OF rc]
  show "tm_total (contamination_mx st1) = tm_total (contamination_mx st) + total_length (batch_of recs)"
    using mx mass by (simp add: load_batch_frame)
  show "tm_wf (contamination_mx st1)
         \<and> tm_width (contamination_mx st1) = tm_width (contamination_mx st)
         \<and> tm_height (contamination_mx st1) = tm_height (contamination_mx st)"
    if "tm_wf (contamination_mx st)"
    using mx that by (simp add: load_batch_frame)
qed

lemma batch_rows:
  assumes T: "0 < unat (threads c)"
    and run: "analyseBatch c (load_batch recs st) = Some (Inr st1)"
  shows "map (stat_row_of st1) [0..<recordsInBatch st1] = map (expected_row c) (batch_of recs)"
    and "concat (map (\<lambda>i. [''>'' @ names st1 ! i, counts_line (counts st1 ! i)])
                     [0..<recordsInBatch st1]) = concat (map (counts_lines c) (batch_of recs))"
    and "counts st1 = map (\<lambda>r. expected_counts c (snd r)) (batch_of recs)"
proof -
  note e = analyseBatch_effect[OF T run]
  let ?b = "batch_of recs"
  have row: "stat_row_of st1 i = expected_row c (?b ! i)"
    and cnt: "counts st1 ! i = expected_counts c (snd (?b ! i))"
    and nm: "names st1 ! i = fst (?b ! i)" if "i < length ?b" for i
    using e(7) that by (simp_all add: slot_done_def e(1,2))
  have "map (stat_row_of st1) [0..<length ?b] = map (\<lambda>i. expected_row c (?b ! i)) [0..<length ?b]"
    by (intro map_cong) (simp_all add: row)
  then show "map (stat_row_of st1) [0..<recordsInBatch st1] = map (expected_row c) ?b"
    using map_nth_fun[of "expected_row c" ?b] by (simp add: e(3))
  have "map (\<lambda>i. [''>'' @ names st1 ! i, counts_line (counts st1 ! i)]) [0..<length ?b]
      = map (\<lambda>i. counts_lines c (?b ! i)) [0..<length ?b]"
    by (intro map_cong) (simp_all add: cnt nm counts_lines_def)
  then show "concat (map (\<lambda>i. [''>'' @ names st1 ! i, counts_line (counts st1 ! i)])
                     [0..<recordsInBatch st1]) = concat (map (counts_lines c) ?b)"
    using map_nth_fun[of "counts_lines c" ?b] by (simp add: e(3))
  show "counts st1 = map (\<lambda>r. expected_counts c (snd r)) ?b"
    by (rule nth_equalityI) (simp_all add: e(6) cnt)
qed

lemma stat_row_of_printCounts: "stat_row_of (printCounts st) = stat_row_of st"
  by (simp add: fun_eq_iff stat_row_of_def printCounts_def)

lemma finish_batch_effect:
  assumes T: "0 < unat (threads c)"
    and run: "analyseBatch c (load_batch recs st) = Some (Inr st1)"
  shows "list_ex (short_seq c) (batch_of recs) \<Longrightarrow> finish_batch c st1 = Inl NullDereference"
    and "finish_batch c st1 = Inr st2 \<Longrightarrow>
         \<not> list_ex (short_seq c) (batch_of recs)
         \<and> contamination_mx st2 = contamination_mx st1
         \<and> stats_csv st2 = stats_csv st @ map (expected_row c) (batch_of recs)
         \<and> counts_cvg st2 = counts_cvg st @
             (if noCountStats c then [] else concat (map (counts_lines c) (batch_of recs)))"
proof -
  note e = analyseBatch_effect[OF T run]
  note r = batch_rows[OF T run]
  have none: "(None \<in> set (counts st1)) = list_ex (short_seq c) (batch_of recs)"
    by (auto simp: r(3) list_ex_iff short_seq_def expected_counts_def split: if_splits)
  have pc: "counts (printStatTable (printCounts st1)) = counts st1"
    "counts (printStatTable st1) = counts st1"
    by (simp_all add: printStatTable_def printCounts_def)
  show "finish_batch c st1 = Inl NullDereference" if "list_ex (short_seq c) (batch_of recs)"
    using that none by (simp add: finish_batch_def Let_def destroyBatchVars_def pc)
  show "\<not> list_ex (short_seq c) (batch_of recs)
         \<and> contamination_mx st2 = contamination_mx st1
         \<and> stats_csv st2 = stats_csv st @ map (expected_row c) (batch_of recs)
         \<and> counts_cvg st2 = counts_cvg st @
             (if noCountStats c then [] else concat (map (counts_lines c) (batch_of recs)))"
    if "finish_batch c st1 = Inr st2"
  proof -
    have ns: "\<not> list_ex (short_seq c) (batch_of recs)"
      using that none by (auto simp: finish_batch_def Let_def destroyBatchVars_def pc
          split: if_splits)
    have "None \<notin> set (counts st1)" using ns none by simp
    then have st2: "st2 = (printStatTable (if \<not> noCountStats c then printCounts st1 else st1))
        \<lparr>counts := [], coverages := [], gcs := [], lengths := [], nonZero := [],
         percentNonZero := [],
         offset := offset st1 + of_nat (recordsInBatch st1)\<rparr>"
      using that
      by (auto simp: finish_batch_def Let_def destroyBatchVars_def pc printStatTable_def
          printCounts_def split: if_splits)
    have ps: "stats_csv (printStatTable (printCounts st1)) = stats_csv st @ map (expected_row c) (batch_of recs)"
      "stats_csv (printStatTable st1) = stats_csv st @ map (expected_row c) (batch_of recs)"
      using r(1) by (simp_all add: printStatTable_def stat_row_of_printCounts e(5))
         (simp add: printCounts_def e(5))
    have pcs: "counts_cvg (printStatTable (printCounts st1))
        = counts_cvg st @ concat (map (counts_lines c) (batch_of recs))"
      "counts_cvg (printStatTable st1) = counts_cvg st"
      using r(2) by (simp_all add: printStatTable_def printCounts_def e(4))
    have mx: "contamination_mx (printStatTable (printCounts st1)) = contamination_mx st1"
      "contamination_mx (printStatTable st1) = contamination_mx st1"
      by (simp_all add: printStatTable_def printCounts_def)
    show ?thesis
      using ns by (simp add: st2 ps pcs mx)
  qed
qed

lemma loop_effect:
  "0 < unat (threads c) \<Longrightarrow> processSeqFile_loop c recs st = Some (Inr st') \<Longrightarrow>
   \<not> list_ex (short_seq c) recs
   \<and> stats_csv st' = stats_csv st @ map (expected_row c) recs
   \<and> counts_cvg st' = counts_cvg st @
        (if noCountStats c then [] else concat (map (counts_lines c) recs))
   \<and> tm_total (contamination_mx st') = tm_total (contamination_mx st) + total_length recs
   \<and> (tm_wf (contamination_mx st) \<longrightarrow>
        tm_wf (contamination_mx st')
        \<and> tm_width (contamination_mx st') = tm_width (contamination_mx st)
        \<and> tm_height (contamination_mx st') = tm_height (contamination_mx st))"
proof (induction c recs st rule: processSeqFile_loop.induct)
  case (1 c recs st)
  note T = "1.prems"(1)
  show ?case
  proof (cases "recs = []")
    case True
    then have "st' = st"
      using "1.prems"(2) by (subst (asm) processSeqFile_loop.simps) simp
    then show ?thesis
      using True by (simp add: total_length_def)
  next
    case False
    obtain st1 st2 where a: "analyseBatch c (load_batch recs st) = Some (Inr st1)"
      and f: "finish_batch c st1 = Inr st2"
      and l: "processSeqFile_loop c (drop BATCH_SIZE recs) st2 = Some (Inr st')"
      using "1.prems"(2) False
      by (subst (asm) processSeqFile_loop.simps) (auto split: option.splits sum.splits)
    note ih = "1.IH"[OF False a refl f T l]
    note e = analyseBatch_effect[OF T a]
    note fb = finish_batch_effect(2)[OF T a f]
    have recs: "recs = batch_of recs @ drop BATCH_SIZE recs"
      by (simp add: batch_of_def)
    have ns: "\<not> list_ex (short_seq c) recs"
      using ih fb by (subst recs) simp
    have rows: "map (expected_row c) recs
        = map (expected_row c) (batch_of recs) @ map (expected_row c) (drop BATCH_SIZE recs)"
      by (subst recs) simp
    have lines: "concat (map (counts_lines c) recs)
        = concat (map (counts_lines c) (batch_of recs))
          @ concat (map (counts_lines c) (drop BATCH_SIZE recs))"
      by (subst recs) simp
    have len: "total_length recs = total_length (batch_of recs) + total_length (drop BATCH_SIZE recs)"
      unfolding total_length_def by (subst recs) simp
    have mx2: "contamination_mx st2 = contamination_mx st1"
      using fb by simp
    have "tm_wf (contamination_mx st')
        \<and> tm_width (contamination_mx st') = tm_width (contamination_mx st)
        \<and> tm_height (contamination_mx st') = tm_height (contamination_mx st)"
      if "tm_wf (contamination_mx st)"
      using e(9)[OF that] ih by (simp add: mx2)
    then show ?thesis
      using ns ih fb e(8) by (simp add: rows lines len mx2)
  qed
qed

lemma init_state_facts:
  "tm_wf (contamination_mx (init_state c))" "tm_total (contamination_mx (init_state c)) = 0"
  "stats_csv (init_state c) = []" "counts_cvg (init_state c) = []"
  by (simp_all add: init_state_def Let_def new_tm_wf)

lemma execute_effect:
  assumes "execute c recs = Some (Inr st)"
  shows "\<not> list_ex (short_seq c) recs"
    and "stats_csv st = map (expected_row c) recs"
    and "counts_cvg st = (if noCountStats c then [] else concat (map (counts_lines c) recs))"
    and "matrix_sum (final_mx (contamination_mx st)) = total_length recs"
proof -
  have T: "0 < unat (threads c)"
    using assms by (auto simp: execute_def unat_gt_0 split: if_splits)
  obtain st0 where l: "processSeqFile c recs (init_state c) = Some (Inr st0)" and st: "st = merge st0"
    using assms by (auto simp: execute_def split: if_splits option.splits sum.splits)
  note e = loop_effect[OF T l[unfolded processSeqFile_def]]
  show "\<not> list_ex (short_seq c) recs" "stats_csv st = map (expected_row c) recs"
    "counts_cvg st = (if noCountStats c then [] else concat (map (counts_lines c) recs))"
    using e by (simp_all add: st merge_def init_state_facts)
  have "tm_wf (contamination_mx st0)" "tm_total (contamination_mx st0) = total_length recs"
    using e by (simp_all add: init_state_facts)
  then show "matrix_sum (final_mx (contamination_mx st)) = total_length recs"
    by (simp add: st merge_def merge_sum)
qed

lemma incTM_thread:
  assumes "incTM tm th x y v = Some tm'"
  shows "matrix_sum (thread_mxs tm' ! th) = matrix_sum (thread_mxs tm ! th) + v
    \<and> (\<forall>w. w \<noteq> th \<longrightarrow> thread_mxs tm' ! w = thread_mxs tm ! w)"
  using assms by (auto simp: incTM_def matrix_sum_inc split: if_splits)

lemma processSeq_thread:
  assumes "processSeq c i th st = Inr st'"
  shows "matrix_sum (thread_mxs (contamination_mx st') ! th)
       = matrix_sum (thread_mxs (contamination_mx st) ! th) + length (seqs st ! i)
    \<and> (\<forall>w. w \<noteq> th \<longrightarrow> thread_mxs (contamination_mx st') ! w = thread_mxs (contamination_mx st) ! w)"
proof -
  obtain x y tm where inc: "incTM (contamination_mx st) th x y (length (seqs st ! i)) = Some tm"
    and st': "st' = (store_results c i st)\<lparr>contamination_mx := tm\<rparr>"
    using processSeq_InrD[OF assms] by blast
  show ?thesis
    using incTM_thread[OF inc] by (simp add: st')
qed

subsection \<open>Rounding to binary64\<close>

text \<open>
  Integers below \<open>2^53\<close> in magnitude are binary64 numbers, rounding keeps the sign, and
  the conversion to \<^verbatim>\<open>uint16_t\<close> of an integer from 0 to 65535 is that integer.
\<close>

lemma round_half_even_int: "round_half_even (of_int k) = k"
  by (simp add: round_half_even_def)

lemma round_half_even_nonneg: "0 \<le> x \<Longrightarrow> 0 \<le> round_half_even x"
  by (auto simp: round_half_even_def Let_def)

lemma scale_up_form: "scale_up ks x s = (y, s') \<Longrightarrow> s \<le> s' \<and> y = x * 2 ^ (s' - s)"
proof (induction ks arbitrary: x s)
  case Nil
  then show ?case by simp
next
  case (Cons k ks)
  show ?case
  proof (cases "x * 2 ^ k < 2 ^ 53 \<and> s + k \<le> 1074")
    case True
    then have "scale_up ks (x * 2 ^ k) (s + k) = (y, s')"
      using Cons.prems by simp
    from Cons.IH[OF this] have le: "s + k \<le> s'" and y: "y = x * 2 ^ k * 2 ^ (s' - (s + k))"
      by simp_all
    have "(2::real) ^ k * 2 ^ (s' - (s + k)) = 2 ^ (s' - s)"
      using le by (simp add: power_add[symmetric])
    then show ?thesis
      using le y by (simp add: mult.assoc)
  next
    case False
    then have "scale_up ks x s = (y, s')"
      using Cons.prems by auto
    from Cons.IH[OF this] show ?thesis .
  qed
qed

lemma scale_down_form: "scale_down ks x s = (y, s') \<Longrightarrow> s \<le> s' \<and> y = x / 2 ^ (s' - s)"
proof (induction ks arbitrary: x s)
  case Nil
  then show ?case by simp
next
  case (Cons k ks)
  show ?case
  proof (cases "2 ^ 52 \<le> x / 2 ^ k")
    case True
    then have "scale_down ks (x / 2 ^ k) (s + k) = (y, s')"
      using Cons.prems by simp
    from Cons.IH[OF this] have le: "s + k \<le> s'" and y: "y = x / 2 ^ k / 2 ^ (s' - (s + k))"
      by simp_all
    have "(2::real) ^ k * 2 ^ (s' - (s + k)) = 2 ^ (s' - s)"
      using le by (simp add: power_add[symmetric])
    then show ?thesis
      using le y by simp
  next
    case False
    then have "scale_down ks x s = (y, s')"
      using Cons.prems by auto
    from Cons.IH[OF this] show ?thesis .
  qed
qed

lemma round_pos_nonneg: "0 \<le> x \<Longrightarrow> 0 \<le> round_pos x"
proof -
  assume x: "0 \<le> x"
  obtain y s where u: "scale_up [1024, 512, 256, 128, 64, 32, 16, 8, 4, 2, 1] x 0 = (y, s)"
    by (cases "scale_up [1024, 512, 256, 128, 64, 32, 16, 8, 4, 2, 1] x 0")
  obtain z t where d: "scale_down [512, 256, 128, 64, 32, 16, 8, 4, 2, 1] x 0 = (z, t)"
    by (cases "scale_down [512, 256, 128, 64, 32, 16, 8, 4, 2, 1] x 0")
  have "0 \<le> y" "0 \<le> z"
    using scale_up_form[OF u] scale_down_form[OF d] x by simp_all
  then have "0 \<le> round_half_even y" "0 \<le> round_half_even z"
    by (simp_all add: round_half_even_nonneg)
  then show ?thesis
    unfolding round_pos_def u d by simp
qed

lemma round_pos_int:
  assumes "of_int k < (2::real) ^ 53"
  shows "round_pos (of_int k) = of_int k"
proof -
  obtain y s where u: "scale_up [1024, 512, 256, 128, 64, 32, 16, 8, 4, 2, 1] (of_int k) 0 = (y, s)"
    by (cases "scale_up [1024, 512, 256, 128, 64, 32, 16, 8, 4, 2, 1] (of_int k) 0")
  have "y = of_int (k * 2 ^ s)"
    using scale_up_form[OF u] by simp
  then have "round_half_even y = k * 2 ^ s"
    by (simp only: round_half_even_int)
  then show ?thesis
    unfolding round_pos_def u using assms by simp
qed

lemma round64_nonneg: "0 \<le> x \<Longrightarrow> 0 \<le> round64 x"
  using round_pos_nonneg[of x] by (simp add: round64_def)

lemma round64_nonpos: "x \<le> 0 \<Longrightarrow> round64 x \<le> 0"
  using round_pos_nonneg[of "- x"] by (simp add: round64_def)

lemma round64_int:
  assumes "\<bar>of_int k\<bar> < (2::real) ^ 53"
  shows "round64 (of_int k) = of_int k"
proof -
  have "round_pos (of_int k) = of_int k" if "0 < k"
    using assms that by (intro round_pos_int) simp
  moreover have "round_pos (- of_int k) = - of_int k" if "k < 0"
    using assms that round_pos_int[of "- k"] by simp
  ultimately show ?thesis
    by (cases "k = 0") (auto simp: round64_def)
qed

lemma round64_nat: "n < 2 ^ 53 \<Longrightarrow> round64 (real n) = real n"
proof -
  assume "n < 2 ^ 53"
  then have "real n < 2 ^ 53"
    by (metis of_nat_less_iff of_nat_numeral of_nat_power)
  then show ?thesis
    using round64_int[of "int n"] by simp
qed

lemma unat16_lt: "unat (w :: 16 word) < 65536"
  using unsigned_less[of w, where 'a = nat] by simp

lemma round64_u16: "round64 (real (unat (w :: 16 word))) = real (unat w)"
  using unat16_lt[of w] by (intro round64_nat) simp

lemma dbl_to_u16_nat: "n < 65536 \<Longrightarrow> dbl_to_u16 (Fin (real n)) = Some (of_nat n)"
proof -
  assume n: "n < 65536"
  then have "round64 (real n) = real n"
    by (intro round64_nat) simp
  then show ?thesis
    using n by (simp add: trunc_def)
qed

lemma dbl_to_u16_int:
  assumes "- 1 \<le> k" and "k < 65536"
  shows "dbl_to_u16 (Fin (of_int k)) = (if k < 0 then None else Some (word_of_int k))"
proof -
  have "\<bar>real_of_int k\<bar> < 2 ^ 53"
    using assms by simp
  then have r: "round64 (of_int k) = of_int k"
    by (rule round64_int)
  show ?thesis
    unfolding dbl_to_u16.simps r using assms by (simp add: trunc_def)
qed

lemma dbl_to_u16_pred:
  assumes "n < 65536"
  shows "dbl_to_u16 (Fin (of_int (int n - 1))) = (if n = 0 then None else Some (of_nat n - 1))"
proof -
  have "dbl_to_u16 (Fin (of_int (int n - 1)))
      = (if int n - 1 < 0 then None else Some (word_of_int (int n - 1)))"
    using assms by (intro dbl_to_u16_int) simp_all
  then show ?thesis
    by (simp split: if_splits)
qed

text \<open>The equations that evaluate a rounding at a numeral.\<close>

lemmas round64_eval = round64_def round_pos_def round_half_even_def trunc_def

subsection \<open>The coverage bin\<close>

text \<open>
  C6: in linear mode the scaled coverage is the product of the coverage and the double
  \<open>0.1\<close>; in log-scale mode, at a coverage above 0, it is the product of
  \<open>log10(coverage)\<close> and the double \<open>cvgBins / 5\<close>. A scaled value whose binary64
  number is at least \<open>cvgBins\<close>, \<open>+inf\<close> included, gives the bin \<open>cvgBins - 1\<close> (with
  \<open>cvgBins = 0\<close> the value converted is \<open>-1.0\<close>, which has no conversion); a scaled
  value below \<open>cvgBins\<close> is truncated as it is, with no lower clamp, so that a value of
  \<open>-1\<close> or less has no conversion. In log-scale mode a coverage of 0 or less gives a
  scaled value that is not finite, and its conversion to an integer is undefined.
\<close>

theorem cvg_bin_scaling_and_clamp:
  "(\<not> cvgLogscale c \<longrightarrow> compressed_cvg c (Fin v) = Fin (round64 v * round64 (1 / 10)))
   \<and> (cvgLogscale c \<longrightarrow> 0 < round64 v \<longrightarrow>
        compressed_cvg c (Fin v)
          = Fin (round64 (log10_pos c (round64 v)) * round64 (real (unat (cvgBins c)) / 5)))
   \<and> (compressed_cvg c cvg = Fin q \<longrightarrow> real (unat (cvgBins c)) \<le> round64 q \<longrightarrow>
        cvg_bin c cvg = (if cvgBins c = 0 then None else Some (cvgBins c - 1)))
   \<and> (compressed_cvg c cvg = PosInf \<longrightarrow>
        cvg_bin c cvg = (if cvgBins c = 0 then None else Some (cvgBins c - 1)))
   \<and> (compressed_cvg c cvg = Fin q \<longrightarrow> round64 q < real (unat (cvgBins c)) \<longrightarrow>
        cvg_bin c cvg
          = (if 0 \<le> trunc (round64 q) then Some (word_of_int (trunc (round64 q))) else None))
   \<and> (cvgLogscale c \<longrightarrow> v \<le> 0 \<longrightarrow>
        \<not> is_finite (compressed_cvg c (Fin v)) \<and> cvg_bin c (Fin v) = None)"
proof -
  have top: "dbl_to_u16 (Fin (of_int (int (unat (cvgBins c)) - 1)))
      = (if cvgBins c = 0 then None else Some (cvgBins c - 1))"
    using dbl_to_u16_pred[OF unat16_lt, of "cvgBins c"] by (simp add: unat_eq_0)
  have lin: "compressed_cvg c (Fin v) = Fin (round64 v * round64 (1 / 10))"
    if "\<not> cvgLogscale c"
    using that by (simp add: compressed_cvg_def)
  have lg: "compressed_cvg c (Fin v)
          = Fin (round64 (log10_pos c (round64 v)) * round64 (real (unat (cvgBins c)) / 5))"
    if "cvgLogscale c" "0 < round64 v"
    using that by (simp add: compressed_cvg_def)
  have clamp: "cvg_bin c cvg = (if cvgBins c = 0 then None else Some (cvgBins c - 1))"
    if "compressed_cvg c cvg = Fin q" "real (unat (cvgBins c)) \<le> round64 q"
    unfolding cvg_bin_def that(1) dbl_ge.simps round64_u16 using that(2) top
    by (simp only: if_True)
  have clamp_inf: "cvg_bin c cvg = (if cvgBins c = 0 then None else Some (cvgBins c - 1))"
    if "compressed_cvg c cvg = PosInf"
    unfolding cvg_bin_def that dbl_ge.simps using top by (simp only: if_True)
  have below: "cvg_bin c cvg
          = (if 0 \<le> trunc (round64 q) then Some (word_of_int (trunc (round64 q))) else None)"
    if eq: "compressed_cvg c cvg = Fin q" and lt: "round64 q < real (unat (cvgBins c))"
  proof -
    have "real n < 65536" if "n < 65536" for n :: nat
      using that by simp
    from this[OF unat16_lt] have "real (unat (cvgBins c)) < 65536" .
    then have "round64 q < 65536"
      using lt by (rule less_trans[rotated])
    then have "trunc (round64 q) < 65536"
      by (auto simp: trunc_def floor_less_iff ceiling_less_iff)
    moreover have "\<not> real (unat (cvgBins c)) \<le> round64 q"
      using lt by simp
    ultimately show ?thesis
      unfolding cvg_bin_def eq dbl_ge.simps round64_u16 by (simp only: if_False dbl_to_u16.simps) simp
  qed
  have nonfin: "\<not> is_finite (compressed_cvg c (Fin v)) \<and> cvg_bin c (Fin v) = None"
    if l: "cvgLogscale c" and v: "v \<le> 0"
  proof -
    have "0 \<le> real n / 5" for n :: nat
      by simp
    then have r: "0 \<le> round64 (real (unat (cvgBins c)) / 5)"
      by (rule round64_nonneg)
    have le: "round64 v \<le> 0"
      using v by (rule round64_nonpos)
    define L where "L = dbl_log10 (log10_pos c) (Fin v)"
    have L: "L = NegInf \<or> L = NaN"
      unfolding L_def using le by (cases "round64 v = 0") simp_all
    have "compressed_cvg c (Fin v) = dbl_mul L (real (unat (cvgBins c)) / 5)"
      using l by (simp add: compressed_cvg_def L_def del: dbl_log10.simps)
    then have "compressed_cvg c (Fin v) = NegInf \<or> compressed_cvg c (Fin v) = NaN"
      using L r by auto
    then show ?thesis
      by (auto simp: cvg_bin_def)
  qed
  show ?thesis
    using lin lg clamp clamp_inf below nonfin by blast
qed

theorem cvg_bin_scaling_and_clamp_witness:
  "\<not> cvgLogscale cfg_k4 \<and> unat (cvgBins cfg_k4) = 1001
   \<and> round64 (round64 25 * round64 (1 / 10)) < real (unat (cvgBins cfg_k4))
   \<and> cvg_bin cfg_k4 (Fin 25) = Some 2
   \<and> real (unat (cvgBins cfg_k4)) \<le> round64 (round64 10010 * round64 (1 / 10))
   \<and> cvg_bin cfg_k4 (Fin 10010) = Some 1000
   \<and> compressed_cvg cfg_k4 PosInf = PosInf \<and> cvg_bin cfg_k4 PosInf = Some 1000
   \<and> cvgLogscale cfg_log \<and> unat (cvgBins cfg_log) = 1000
   \<and> 0 < round64 100 \<and> compressed_cvg cfg_log (Fin 100) = Fin 400
   \<and> cvg_bin cfg_log (Fin 100) = Some 400
   \<and> compressed_cvg cfg_log (Fin 100000) = Fin 1000
   \<and> cvg_bin cfg_log (Fin 100000) = Some 999
   \<and> compressed_cvg cfg_log (Fin 0) = NegInf \<and> cvg_bin cfg_log (Fin 0) = None"
proof -
  have k: "\<not> cvgLogscale cfg_k4" "unat (cvgBins cfg_k4) = 1001" "cvgBins cfg_k4 = 1001"
    "cvgLogscale cfg_log" "unat (cvgBins cfg_log) = 1000" "cvgBins cfg_log = 1000"
    "log10_pos cfg_log = lg_pow10"
    by (simp_all add: cfg_k4_def cfg_log_def)
  have r: "round64 25 = 25" "round64 10010 = 10010" "round64 100 = 100" "round64 100000 = 100000"
    "round64 200 = 200" "round64 2 = 2" "round64 5 = 5" "round64 0 = 0"
    using round64_nat[of 25] round64_nat[of 10010] round64_nat[of 100] round64_nat[of 100000]
      round64_nat[of 200] round64_nat[of 2] round64_nat[of 5] round64_nat[of 0]
    by simp_all
  have t: "round64 (25 * round64 (1 / 10)) < 1001" "1001 \<le> round64 (10010 * round64 (1 / 10))"
    "trunc (round64 (25 * round64 (1 / 10))) = 2"
    by (simp_all add: round64_eval)
  have cinf: "compressed_cvg cfg_k4 PosInf = PosInf"
    by (simp add: compressed_cvg_def k round64_eval)
  have a: "cvg_bin cfg_k4 (Fin 25) = Some 2"
    using cvg_bin_scaling_and_clamp[of cfg_k4 25 "Fin 25" "round64 25 * round64 (1 / 10)"]
    by (simp add: k r t)
  have b: "cvg_bin cfg_k4 (Fin 10010) = Some 1000"
    using cvg_bin_scaling_and_clamp[of cfg_k4 10010 "Fin 10010" "round64 10010 * round64 (1 / 10)"]
    by (simp add: k r t)
  have c: "cvg_bin cfg_k4 PosInf = Some 1000"
    using cvg_bin_scaling_and_clamp[of cfg_k4 0 PosInf 0]
    by (simp add: k cinf)
  have d: "compressed_cvg cfg_log (Fin 100) = Fin 400"
    using cvg_bin_scaling_and_clamp[of cfg_log 100 "Fin 100" 400]
    by (simp add: k r lg_pow10_def)
  have e: "cvg_bin cfg_log (Fin 100) = Some 400"
    using cvg_bin_scaling_and_clamp[of cfg_log 100 "Fin 100" 400] d
    by (simp add: k r trunc_def round64_nat[of 400, simplified])
  have f: "compressed_cvg cfg_log (Fin 100000) = Fin 1000"
    using cvg_bin_scaling_and_clamp[of cfg_log 100000 "Fin 100000" 1000]
    by (simp add: k r lg_pow10_def)
  have g: "cvg_bin cfg_log (Fin 100000) = Some 999"
    using cvg_bin_scaling_and_clamp[of cfg_log 100000 "Fin 100000" 1000] f
    by (simp add: k r round64_nat[of 1000, simplified])
  have h: "compressed_cvg cfg_log (Fin 0) = NegInf"
    by (simp add: compressed_cvg_def k r)
  have i: "cvg_bin cfg_log (Fin 0) = None"
    using cvg_bin_scaling_and_clamp[of cfg_log 0 "Fin 0" 0]
    by (simp add: k)
  show ?thesis
    using a b c d e f g h i k r t cinf by simp
qed

subsection \<open>Calls and batches that return\<close>

text \<open>
  \<^verbatim>\<open>processSeq\<close> by its two bin indices; a call returns a state when both indices are
  defined and inside the grid, and then so do the batch and, when no sequence is short,
  \<^verbatim>\<open>destroyBatchVars\<close>.
\<close>

lemma processSeq_eval:
  "processSeq c i th st =
     (case gc_bin c (gc_perc (seqs st ! i)) of
        None \<Rightarrow> Inl ConversionUndefined
      | Some x \<Rightarrow>
          (case cvg_bin c (average_cvg c (seqs st ! i)) of
             None \<Rightarrow> Inl ConversionUndefined
           | Some y \<Rightarrow>
               (case incTM (contamination_mx st) th (unat x) (unat y) (length (seqs st ! i)) of
                  None \<Rightarrow> Inl BinOutOfRange
                | Some tm \<Rightarrow> Inr ((store_results c i st)\<lparr>contamination_mx := tm\<rparr>))))"
  by (simp add: processSeq_def Let_def store_results_frame split: option.splits)

lemma in_matrix_shape: "has_shape w h m \<Longrightarrow> in_matrix m x y = (x < w \<and> y < h)"
  by (auto simp: has_shape_def in_matrix_def list_all_length)

lemma matrix_fits_shape:
  "matrix_fits c tm \<Longrightarrow> th < unat (threads c) \<Longrightarrow>
   has_shape (unat (gcBins c)) (unat (cvgBins c)) (thread_mxs tm ! th)"
  by (auto simp: matrix_fits_def tm_wf_def list_all_length)

lemma processSeq_succeeds:
  assumes fits: "matrix_fits c (contamination_mx st)" and th: "th < unat (threads c)"
    and ok: "bins_ok c (seqs st ! i)"
  shows "\<exists>st'. processSeq c i th st = Inr st' \<and> matrix_fits c (contamination_mx st')"
proof -
  obtain x y where x: "gc_bin c (gc_perc (seqs st ! i)) = Some x"
    and y: "cvg_bin c (average_cvg c (seqs st ! i)) = Some y"
    and r: "unat x < unat (gcBins c)" "unat y < unat (cvgBins c)"
    using ok by (auto simp: bins_ok_def split: option.splits)
  have "in_matrix (thread_mxs (contamination_mx st) ! th) (unat x) (unat y)"
    using in_matrix_shape[OF matrix_fits_shape[OF fits th]] r by simp
  moreover have "th < length (thread_mxs (contamination_mx st))"
    using fits th by (simp add: matrix_fits_def)
  ultimately obtain tm where
    "incTM (contamination_mx st) th (unat x) (unat y) (length (seqs st ! i)) = Some tm"
    by (simp add: incTM_def)
  then obtain st' where p: "processSeq c i th st = Inr st'"
    by (simp add: processSeq_eval x y)
  have "matrix_fits c (contamination_mx st')"
    using processSeq_matrix[OF p] fits by (simp add: matrix_fits_def)
  with p show ?thesis by blast
qed

lemma run_calls_succeeds:
  "matrix_fits c (contamination_mx st) \<Longrightarrow>
   \<forall>call \<in> set calls. snd call < unat (threads c) \<and> bins_ok c (seqs st ! fst call) \<Longrightarrow>
   \<exists>st'. run_calls c calls st = Inr st'"
proof (induction calls arbitrary: st)
  case Nil
  show ?case by simp
next
  case (Cons call calls)
  obtain i th where call: "call = (i, th)" by (cases call)
  have th: "th < unat (threads c)" and ok: "bins_ok c (seqs st ! i)"
    using Cons.prems(2) by (simp_all add: call)
  obtain st1 where p: "processSeq c i th st = Inr st1"
    and f1: "matrix_fits c (contamination_mx st1)"
    using processSeq_succeeds[OF Cons.prems(1) th ok] by blast
  have "seqs st1 = seqs st"
    using processSeq_frame[OF p, of 0] by simp
  then have "\<forall>call \<in> set calls. snd call < unat (threads c) \<and> bins_ok c (seqs st1 ! fst call)"
    using Cons.prems(2) by simp
  from Cons.IH[OF f1 this] show ?case
    by (simp add: call p)
qed

lemma batch_calls_workers: "call \<in> set (batch_calls T n) \<Longrightarrow> snd call < T"
  by (auto simp: batch_calls_def worker_calls_def)

lemma load_batch_seq:
  "i < length (batch_of recs) \<Longrightarrow> seqs (load_batch recs st) ! i = snd (batch_of recs ! i)"
  by (simp add: load_batch_frame)

lemma analyseBatch_succeeds:
  assumes T: "0 < unat (threads c)" and fits: "matrix_fits c (contamination_mx st)"
    and ok: "list_all (\<lambda>r. bins_ok c (snd r)) (batch_of recs)"
  shows "\<exists>st1. analyseBatch c (load_batch recs st) = Some (Inr st1)"
proof -
  let ?n = "length (batch_of recs)"
  let ?calls = "batch_calls (unat (threads c)) ?n"
  have "snd call < unat (threads c) \<and> bins_ok c (seqs (load_batch recs st) ! fst call)"
    if "call \<in> set ?calls" for call
  proof -
    have "fst call \<in> fst ` set ?calls" using that by simp
    then have i: "fst call < ?n"
      using batch_calls_indices[OF T, of ?n] by simp
    then have "bins_ok c (snd (batch_of recs ! fst call))"
      using ok by (simp add: list_all_length)
    then show ?thesis
      using batch_calls_workers[OF that] i by (simp add: load_batch_seq)
  qed
  then have "\<exists>st'. run_calls c ?calls (load_batch recs st) = Inr st'"
    using fits by (intro run_calls_succeeds) (simp_all add: load_batch_frame)
  then show ?thesis
    by (simp add: analyseBatch_run[OF T] load_batch_frame)
qed

lemma run_calls_cerr:
  "run_calls c calls st = Inr st' \<Longrightarrow>
   cerr st' = cerr st @ concat (map (\<lambda>call.
       if length (seqs st ! fst call) < unat (merLen c)
       then [too_short_msg c (names st ! fst call) (seqs st ! fst call)] else []) calls)"
proof (induction calls arbitrary: st)
  case Nil
  then show ?case by simp
next
  case (Cons call calls)
  obtain i th where call: "call = (i, th)" by (cases call)
  obtain st1 where p: "processSeq c i th st = Inr st1" and r: "run_calls c calls st1 = Inr st'"
    using Cons.prems by (auto simp: call split: sum.splits)
  note f = processSeq_frame[OF p, of 0]
  show ?case
    using f Cons.IH[OF r] by (simp add: call cong: if_cong)
qed

lemma batch_vectors:
  assumes T: "0 < unat (threads c)"
    and run: "analyseBatch c (load_batch recs st) = Some (Inr st1)"
  shows "coverages st1 = map (\<lambda>r. average_cvg c (snd r)) (batch_of recs)"
    and "nonZero st1 = map (\<lambda>r. of_nat (nbNonZero_of c (snd r))) (batch_of recs)"
    and "cerr st1 = cerr st @ concat (map (\<lambda>call.
           if short_seq c (batch_of recs ! fst call)
           then [too_short_msg c (fst (batch_of recs ! fst call)) (snd (batch_of recs ! fst call))]
           else []) (batch_calls (unat (threads c)) (length (batch_of recs))))"
proof -
  let ?n = "length (batch_of recs)"
  let ?calls = "batch_calls (unat (threads c)) ?n"
  have rc: "run_calls c ?calls (load_batch recs st) = Inr st1"
    using run analyseBatch_run[OF T, of "load_batch recs st"] by (simp add: load_batch_frame)
  have sized: "vectors_sized ?n st1"
    using run_calls_frame[OF rc, of ?n] load_batch_inv[of c recs st] by (simp add: batch_inv_def)
  note e = analyseBatch_effect[OF T run]
  have row: "stat_row_of st1 i = expected_row c (batch_of recs ! i)" if "i < ?n" for i
    using e(7) that by (simp add: slot_done_def e(1,2))
  show "coverages st1 = map (\<lambda>r. average_cvg c (snd r)) (batch_of recs)"
    using sized row by (intro nth_equalityI)
      (auto simp: vectors_sized_def stat_row_of_def expected_row_def)
  show "nonZero st1 = map (\<lambda>r. of_nat (nbNonZero_of c (snd r))) (batch_of recs)"
    using sized row by (intro nth_equalityI)
      (auto simp: vectors_sized_def stat_row_of_def expected_row_def)
  have lt: "fst call < ?n" if "call \<in> set ?calls" for call
  proof -
    have "fst call \<in> fst ` set ?calls" using that by simp
    then show ?thesis using batch_calls_indices[OF T, of ?n] by simp
  qed
  have "map (\<lambda>call.
       if length (seqs (load_batch recs st) ! fst call) < unat (merLen c)
       then [too_short_msg c (names (load_batch recs st) ! fst call)
               (seqs (load_batch recs st) ! fst call)] else []) ?calls
     = map (\<lambda>call.
           if short_seq c (batch_of recs ! fst call)
           then [too_short_msg c (fst (batch_of recs ! fst call)) (snd (batch_of recs ! fst call))]
           else []) ?calls"
    by (intro map_cong refl) (simp add: lt load_batch_frame short_seq_def cong: if_cong)
  then show "cerr st1 = cerr st @ concat (map (\<lambda>call.
           if short_seq c (batch_of recs ! fst call)
           then [too_short_msg c (fst (batch_of recs ! fst call)) (snd (batch_of recs ! fst call))]
           else []) ?calls)"
    by (simp only: run_calls_cerr[OF rc] load_batch_frame(7))
qed

lemma finish_batch_succeeds:
  assumes T: "0 < unat (threads c)"
    and run: "analyseBatch c (load_batch recs st) = Some (Inr st1)"
    and ns: "\<not> list_ex (short_seq c) (batch_of recs)"
  shows "\<exists>st2. finish_batch c st1 = Inr st2"
proof -
  have "None \<notin> set (counts st1)"
    using ns by (auto simp: batch_rows(3)[OF T run] list_ex_iff short_seq_def
        expected_counts_def split: if_splits)
  then show ?thesis
    by (simp add: finish_batch_def Let_def destroyBatchVars_def printStatTable_def
        printCounts_def)
qed

lemma load_batch_reset:
  "load_batch recs (init_state c\<lparr>offset := 0, recordsInBatch := 0, names := [], seqs := []\<rparr>)
     = load_batch recs (init_state c)"
  by (simp add: load_batch_def init_state_def createBatchVars_def Let_def)

lemma execute_first_batch:
  assumes "threads c \<noteq> 0" and "recs \<noteq> []"
  shows "execute c recs =
     (case analyseBatch c (load_batch recs (init_state c)) of
        None \<Rightarrow> None
      | Some (Inl e) \<Rightarrow> Some (Inl e)
      | Some (Inr st1) \<Rightarrow>
          (case finish_batch c st1 of
             Inl e \<Rightarrow> Some (Inl e)
           | Inr st2 \<Rightarrow>
               (case processSeqFile_loop c (drop BATCH_SIZE recs) st2 of
                  None \<Rightarrow> None
                | Some (Inl e) \<Rightarrow> Some (Inl e)
                | Some (Inr st) \<Rightarrow> Some (Inr (merge st)))))"
  using assms
  by (simp add: execute_def processSeqFile_def processSeqFile_loop.simps[of c recs]
      load_batch_reset split: option.splits sum.splits)

lemma init_state_fits: "matrix_fits c (contamination_mx (init_state c))"
proof -
  have "tm_wf (contamination_mx (init_state c))"
    by (simp add: init_state_def Let_def new_tm_wf)
  then show ?thesis
    by (simp add: matrix_fits_def) (simp add: init_state_def Let_def new_threaded_matrix_def)
qed

subsection \<open>The concrete inputs\<close>

lemma gc_small:
  "gc_perc ''AC'' = Fin (1 / 2)" "gc_perc ''ACGTA'' = Fin (2 / 5)"
  "gc_perc ''acgtNAC'' = Fin (3 / 6)" "gc_perc ''ACG'' = Fin (2 / 3)"
  "gc_perc ''GGCC'' = Fin (4 / 4)"
  by code_simp+

lemma cvg_small:
  "average_cvg cfg_small ''AC'' = Fin 0" "average_cvg cfg_small ''ACGTA'' = Fin 7"
  "average_cvg cfg_small ''acgtNAC'' = Fin 0" "average_cvg cfg_small ''ACG'' = Fin 7"
  "average_cvg cfg_rect ''GGCC'' = Fin 25"
  by code_simp+

lemma gc_bin_small:
  "gc_bin cfg_small (Fin (1 / 2)) = Some 2" "gc_bin cfg_small (Fin (2 / 5)) = Some 1"
  "gc_bin cfg_small (Fin (3 / 6)) = Some 2" "gc_bin cfg_small (Fin (2 / 3)) = Some 2"
  by (simp_all add: gc_bin_def cfg_small_def round64_eval)

lemma cvg_bin_small:
  "cvg_bin cfg_small (Fin 0) = Some 0" "cvg_bin cfg_small (Fin 7) = Some 0"
  "cvg_bin cfg_rect (Fin 25) = Some 2"
  by (simp_all add: cvg_bin_def compressed_cvg_def cfg_small_def cfg_rect_def round64_eval)

lemma bins_ok_small:
  "bins_ok cfg_small ''AC''" "bins_ok cfg_small ''ACGTA''"
  "bins_ok cfg_small ''acgtNAC''" "bins_ok cfg_small ''ACG''"
  by (simp_all add: bins_ok_def gc_small cvg_small gc_bin_small cvg_bin_small)
    (simp_all add: cfg_small_def)

lemma msg_small:
  "too_short_msg cfg_small ''s1'' ''AC'' =
     ''s1: AC is too short to compute coverage.  Sequence length is 2 and K-mer length is 3. Setting sequence coverage to 0.''"
  by code_simp

lemma small_facts:
  "0 < unat (threads cfg_small)" "1 < unat (threads cfg_small)" "threads cfg_small \<noteq> 0"
  "unat (merLen cfg_small) = 3" "\<not> noCountStats cfg_small"
  by (simp_all add: cfg_small_def)

lemma short_batch:
  "batch_of short_recs = short_recs" "drop BATCH_SIZE short_recs = []"
  "batch_calls (unat (threads cfg_small)) (length short_recs) = [(0, 0), (1, 1)]"
  "list_ex (short_seq cfg_small) short_recs"
  "total_length short_recs = 7"
  by (simp_all add: batch_of_def short_recs_def BATCH_SIZE_def batch_calls_def worker_calls_def
      interlaced_indices_def cfg_small_def upt_rec short_seq_def total_length_def)

lemma ok_batch_facts:
  "batch_of ok_recs = ok_recs" "drop BATCH_SIZE ok_recs = []"
  "\<not> list_ex (short_seq cfg_small) ok_recs"
  "total_length ok_recs = 15"
  by (simp_all add: batch_of_def ok_recs_def BATCH_SIZE_def cfg_small_def short_seq_def
      total_length_def)

lemma short_batch_done:
  "analyseBatch cfg_small (load_batch short_recs (init_state cfg_small)) = Some (Inr after_short_batch)"
proof -
  have "list_all (\<lambda>r. bins_ok cfg_small (snd r)) (batch_of short_recs)"
    by (simp add: short_batch(1)) (simp add: short_recs_def bins_ok_small)
  from analyseBatch_succeeds[OF small_facts(1) init_state_fits this]
  show ?thesis by (auto simp: after_short_batch_def)
qed

lemma ok_batch_done: "analyseBatch cfg_small ok_batch = Some (Inr after_ok_batch)"
proof -
  have "list_all (\<lambda>r. bins_ok cfg_small (snd r)) (batch_of ok_recs)"
    by (simp add: ok_batch_facts(1)) (simp add: ok_recs_def bins_ok_small)
  from analyseBatch_succeeds[OF small_facts(1) init_state_fits this]
  show ?thesis by (auto simp: after_ok_batch_def ok_batch_def)
qed

lemma ok_run_done: "execute cfg_small ok_recs = Some (Inr after_ok_run)"
proof -
  note a = ok_batch_done[unfolded ok_batch_def]
  obtain st2 where f: "finish_batch cfg_small after_ok_batch = Inr st2"
    using finish_batch_succeeds[OF small_facts(1) a] ok_batch_facts by auto
  have "execute cfg_small ok_recs = Some (Inr (merge st2))"
    by (simp add: execute_first_batch small_facts ok_recs_def[THEN arg_cong, of "\<lambda>x. x = []"]
        a f ok_batch_facts(2) processSeqFile_loop.simps[of cfg_small "[]"])
  then show ?thesis by (simp add: after_ok_run_def)
qed

lemma small_values:
  "expected_counts cfg_small ''AC'' = None" "expected_counts cfg_small ''ACGTA'' = Some [7, 7, 7]"
  "nbNonZero_of cfg_small ''AC'' = 0" "nbNonZero_of cfg_small ''ACGTA'' = 1"
  "counts_lines cfg_small (''s1'', ''AC'') = [''>s1'', ''0'']"
  "counts_lines cfg_small (''s2'', ''ACGTA'') = [''>s2'', ''7 7 7'']"
  by code_simp+

subsection \<open>The GC bin\<close>

lemma gc_bin_one:
  assumes "round64 q = 1"
  shows "gc_bin c (Fin q) = Some (gcBins c)"
proof -
  have "gc_bin c (Fin q) = dbl_to_u16 (Fin (real (unat (gcBins c))))"
    by (simp only: gc_bin_def dbl_mul.simps assms round64_u16 mult_1)
  also have "\<dots> = Some (of_nat (unat (gcBins c)))"
    by (rule dbl_to_u16_nat[OF unat16_lt])
  also have "\<dots> = Some (gcBins c)"
    by simp
  finally show ?thesis .
qed

lemma gc_bin_floor:
  assumes "0 \<le> q" and "round64 (round64 q * real (unat (gcBins c))) < 65536"
  shows "gc_bin c (Fin q)
    = Some (word_of_int \<lfloor>round64 (round64 q * real (unat (gcBins c)))\<rfloor>)"
proof -
  define p where "p = round64 (round64 q * real (unat (gcBins c)))"
  have "0 \<le> round64 q * real (unat (gcBins c))"
    by (intro mult_nonneg_nonneg round64_nonneg assms(1) of_nat_0_le_iff)
  then have nn: "0 \<le> p"
    unfolding p_def by (rule round64_nonneg)
  have lt: "p < 65536"
    using assms(2) by (simp add: p_def)
  have g: "gc_bin c (Fin q) = (if 0 \<le> trunc p \<and> trunc p < 65536
      then Some (word_of_int (trunc p)) else None)"
    by (simp only: gc_bin_def dbl_mul.simps round64_u16 dbl_to_u16.simps p_def)
  have t: "trunc p = \<lfloor>p\<rfloor>"
    using nn by (simp add: trunc_def)
  have "0 \<le> \<lfloor>p\<rfloor>" "\<lfloor>p\<rfloor> < 65536"
    using nn lt by (simp_all add: floor_less_iff)
  then show ?thesis
    unfolding g t by (simp add: p_def)
qed

lemma processSeq_gc_one:
  assumes gc: "gc_perc (seqs st ! i) = Fin 1"
    and shape: "has_shape (unat (gcBins c)) h (thread_mxs (contamination_mx st) ! th)"
  shows "processSeq c i th st =
     (case cvg_bin c (average_cvg c (seqs st ! i)) of
        None \<Rightarrow> Inl ConversionUndefined | Some y \<Rightarrow> Inl BinOutOfRange)"
proof -
  have r: "round64 1 = 1"
    using round64_nat[of 1] by simp
  have x: "gc_bin c (gc_perc (seqs st ! i)) = Some (gcBins c)"
    unfolding gc by (rule gc_bin_one[OF r])
  have "\<not> in_matrix (thread_mxs (contamination_mx st) ! th) (unat (gcBins c)) y" for y
    by (simp add: in_matrix_shape[OF shape])
  then have "incTM (contamination_mx st) th (unat (gcBins c)) y v = None" for y v
    by (simp add: incTM_def)
  then show ?thesis
    by (simp add: processSeq_eval x split: option.splits)
qed

lemma rect_facts:
  "0 < unat (threads cfg_rect)" "threads cfg_rect \<noteq> 0" "rect_recs \<noteq> []"
  "seqs rect_batch ! 0 = ''GGCC''" "recordsInBatch rect_batch = 1"
  "batch_calls (unat (threads cfg_rect)) (recordsInBatch rect_batch) = [(0, 0)]"
  "unat (gcBins cfg_rect) = 4" "unat (cvgBins cfg_rect) = 8"
  "has_shape 4 8 (thread_mxs (contamination_mx rect_batch) ! 0)"
  by (simp_all add: rect_batch_def load_batch_frame batch_of_def rect_recs_def BATCH_SIZE_def
      batch_calls_def worker_calls_def interlaced_indices_def cfg_rect_def upt_rec
      init_state_def Let_def new_threaded_matrix_def new_matrix_shape)

text \<open>
  C5: the GC bin is the binary64 product of the GC fraction and \<open>gcBins\<close>, truncated,
  with no upper clamp. For a sequence whose GC fraction is exactly 1 it is \<open>gcBins\<close>,
  which is outside a grid of \<open>gcBins \<times> cvgBins\<close> cells whatever the coverage bin is, so
  the call of \<^verbatim>\<open>processSeq\<close> for such a sequence has no cell to increment. With 1001
  bins the fraction \<open>39/77\<close> has bin 506 (the product is the double next below 507),
  \<open>1/2\<close> has bin 500 and \<open>1000/1001\<close> has bin 1000. A run over the single sequence
  \<open>GGCC\<close> on a grid of \<open>4 \<times> 8\<close> cells stops with the bin out of range.
\<close>

theorem gc_bin_unclamped_at_one:
  assumes "gc_perc seq = Fin 1" and "seqs st ! index = seq"
    and "has_shape (unat (gcBins c)) (unat (cvgBins c)) (thread_mxs (contamination_mx st) ! th_id)"
  shows "gc_bin c (gc_perc seq) = Some (gcBins c)
    \<and> \<not> in_matrix (thread_mxs (contamination_mx st) ! th_id) (unat (gcBins c)) y
    \<and> processSeq c index th_id st =
           (case cvg_bin c (average_cvg c seq) of
              None \<Rightarrow> Inl ConversionUndefined | Some y \<Rightarrow> Inl BinOutOfRange)
    \<and> (0 \<le> q \<longrightarrow> round64 (round64 q * real (unat (gcBins c))) < 65536 \<longrightarrow>
         gc_bin c (Fin q)
           = Some (word_of_int \<lfloor>round64 (round64 q * real (unat (gcBins c)))\<rfloor>))
    \<and> gc_bin cfg_k4 (Fin (39 / 77)) = Some 506
    \<and> gc_bin cfg_k4 (Fin (1 / 2)) = Some 500
    \<and> gc_bin cfg_k4 (Fin (1000 / 1001)) = Some 1000
    \<and> execute cfg_rect rect_recs = Some (Inl BinOutOfRange)"
proof -
  have r: "round64 1 = 1"
    using round64_nat[of 1] by simp
  have 1: "gc_bin c (gc_perc seq) = Some (gcBins c)"
    unfolding assms(1) by (rule gc_bin_one[OF r])
  have 2: "\<not> in_matrix (thread_mxs (contamination_mx st) ! th_id) (unat (gcBins c)) y"
    by (simp add: in_matrix_shape[OF assms(3)])
  have 3: "processSeq c index th_id st =
           (case cvg_bin c (average_cvg c seq) of
              None \<Rightarrow> Inl ConversionUndefined | Some y \<Rightarrow> Inl BinOutOfRange)"
    using processSeq_gc_one[of st index c "unat (cvgBins c)" th_id] assms by simp
  have 4: "gc_bin c (Fin q)
           = Some (word_of_int \<lfloor>round64 (round64 q * real (unat (gcBins c)))\<rfloor>)"
    if "0 \<le> q" "round64 (round64 q * real (unat (gcBins c))) < 65536"
    using that by (rule gc_bin_floor)
  have 5: "gc_bin cfg_k4 (Fin (39 / 77)) = Some 506"
    by (simp add: gc_bin_def cfg_k4_def round64_eval)
  have 6: "gc_bin cfg_k4 (Fin (1 / 2)) = Some 500"
    by (simp add: gc_bin_def cfg_k4_def round64_eval)
  have 7: "gc_bin cfg_k4 (Fin (1000 / 1001)) = Some 1000"
    by (simp add: gc_bin_def cfg_k4_def round64_eval)
  have p: "processSeq cfg_rect 0 0 rect_batch = Inl BinOutOfRange"
    using processSeq_gc_one[of rect_batch 0 cfg_rect 8 0]
    by (simp add: rect_facts gc_small cvg_small cvg_bin_small)
  have "analyseBatch cfg_rect rect_batch = Some (Inl BinOutOfRange)"
    unfolding analyseBatch_run[OF rect_facts(1)] rect_facts(6) by (simp add: p)
  then have 8: "execute cfg_rect rect_recs = Some (Inl BinOutOfRange)"
    by (simp add: execute_first_batch rect_facts(2,3) rect_batch_def[symmetric])
  show ?thesis
    using 1 2 3 4 5 6 7 8 by blast
qed

theorem gc_bin_unclamped_at_one_witness:
  "gc_perc ''GGCC'' = Fin 1 \<and> seqs rect_batch ! 0 = ''GGCC''
   \<and> has_shape (unat (gcBins cfg_rect)) (unat (cvgBins cfg_rect))
       (thread_mxs (contamination_mx rect_batch) ! 0)
   \<and> unat (gcBins cfg_rect) = 4 \<and> unat (cvgBins cfg_rect) = 8
   \<and> gc_bin cfg_rect (gc_perc ''GGCC'') = Some 4
   \<and> cvg_bin cfg_rect (average_cvg cfg_rect ''GGCC'') = Some 2
   \<and> in_matrix (thread_mxs (contamination_mx rect_batch) ! 0) 2 4
   \<and> \<not> in_matrix (thread_mxs (contamination_mx rect_batch) ! 0) 4 2
   \<and> (0 :: real) \<le> 1 / 2 \<and> round64 (round64 (1 / 2) * real (unat (gcBins cfg_rect))) < 65536
   \<and> gc_bin cfg_rect (Fin (1 / 2)) = Some 2
   \<and> processSeq cfg_rect 0 0 rect_batch = Inl BinOutOfRange"
proof -
  have g: "gc_perc ''GGCC'' = Fin 1"
    by (simp add: gc_small)
  have s: "has_shape (unat (gcBins cfg_rect)) (unat (cvgBins cfg_rect))
       (thread_mxs (contamination_mx rect_batch) ! 0)"
    by (simp add: rect_facts)
  have y: "cvg_bin cfg_rect (average_cvg cfg_rect ''GGCC'') = Some 2"
    by (simp add: cvg_small cvg_bin_small)
  have i: "in_matrix (thread_mxs (contamination_mx rect_batch) ! 0) 2 4"
    by (simp add: in_matrix_shape[OF rect_facts(9)])
  have c: "gcBins cfg_rect = 4"
    by (simp add: cfg_rect_def)
  have h: "round64 (round64 (1 / 2) * 4) = 2"
    by (simp add: round64_eval)
  show ?thesis
    using gc_bin_unclamped_at_one[OF g rect_facts(4) s, where y = 2 and q = "1 / 2"] g s y i c
    by (simp add: rect_facts h)
qed

subsection \<open>A whole run\<close>

text \<open>
  A run over records of which one is shorter than the k-mer does not reach its end:
  the entry of the short sequence in \<open>counts\<close> is a null pointer when
  \<^verbatim>\<open>destroyBatchVars\<close> calls \<^verbatim>\<open>clear()\<close> through it.
\<close>

lemma short_sequence_never_completes:
  "list_ex (short_seq c) recs \<Longrightarrow> execute c recs \<noteq> Some (Inr st)"
  using execute_effect(1)[of c recs st] by blast

text \<open>
  C7, at the failing input of two records, the first shorter than \<open>k = 3\<close>: the batch is
  analysed to its end, the diagnostic is written, the coverage of the short sequence
  is 0, its count vector is absent, its non-zero count is 0, its line of the counts
  file is \<open>0\<close>, and the next sequence is processed; then \<^verbatim>\<open>destroyBatchVars\<close> goes
  through the null pointer of the short sequence, and the run ends there.
\<close>

theorem short_sequence_null_dereference:
  "analyseBatch cfg_small (load_batch short_recs (init_state cfg_small)) = Some (Inr after_short_batch)
   \<and> cerr after_short_batch =
       [''s1: AC is too short to compute coverage.  Sequence length is 2 and K-mer length is 3. Setting sequence coverage to 0.'']
   \<and> coverages after_short_batch = [Fin 0, Fin 7]
   \<and> counts after_short_batch = [None, Some [7, 7, 7]]
   \<and> nonZero after_short_batch = [0, 1]
   \<and> counts_cvg (printCounts after_short_batch) = [''>s1'', ''0'', ''>s2'', ''7 7 7'']
   \<and> finish_batch cfg_small after_short_batch = Inl NullDereference
   \<and> execute cfg_small short_recs = Some (Inl NullDereference)"
proof -
  note T = small_facts(1)
  note 1 = short_batch_done
  note v = batch_vectors[OF T 1, unfolded short_batch(1)]
  note r = batch_rows[OF T 1, unfolded short_batch(1)]
  note e = analyseBatch_effect[OF T 1, unfolded short_batch(1)]
  have i: "cerr (init_state cfg_small) = []" "counts_cvg (init_state cfg_small) = []"
    by (simp_all add: init_state_def Let_def)
  have 2: "cerr after_short_batch =
       [''s1: AC is too short to compute coverage.  Sequence length is 2 and K-mer length is 3. Setting sequence coverage to 0.'']"
    unfolding v(3) short_batch(3) i
    by (simp add: short_recs_def short_seq_def small_facts msg_small)
  have 3: "coverages after_short_batch = [Fin 0, Fin 7]"
    unfolding v(1) by (simp add: short_recs_def cvg_small)
  have 4: "counts after_short_batch = [None, Some [7, 7, 7]]"
    unfolding r(3) by (simp add: short_recs_def small_values)
  have 5: "nonZero after_short_batch = [0, 1]"
    unfolding v(2) by (simp add: short_recs_def small_values)
  have 6: "counts_cvg (printCounts after_short_batch) = [''>s1'', ''0'', ''>s2'', ''7 7 7'']"
    using r(2) e(4) by (simp add: printCounts_def i) (simp add: short_recs_def small_values)
  have 7: "finish_batch cfg_small after_short_batch = Inl NullDereference"
    using finish_batch_effect(1)[OF T 1] by (simp add: short_batch)
  have 8: "execute cfg_small short_recs = Some (Inl NullDereference)"
    by (simp add: execute_first_batch small_facts short_recs_def[THEN arg_cong, of "\<lambda>x. x = []"] 1 7)
  show ?thesis using 1 2 3 4 5 6 7 8 by simp
qed

text \<open>
  C1, at a failing input, two records of which the first is shorter than
  \<open>k = 3\<close>: the call of \<^verbatim>\<open>processSeq\<close> for the short sequence \<open>AC\<close> returns and
  has added the two bases of the sequence to cell \<open>(2, 0)\<close> of the matrix of worker 0,
  which was empty; after the batch the thread matrices hold the 7 bases of both
  records; but the run stops in \<^verbatim>\<open>destroyBatchVars\<close> and never reaches \<^verbatim>\<open>merge\<close>, so no
  merged matrix holds these bases. Over three records of which none is short the run
  reaches its end, and the cells of the merged matrix sum to the 15 bases read.
\<close>

theorem short_sequence_binned_but_never_merged:
  "short_call = Inr (projr short_call)
   \<and> seqs (load_batch short_recs (init_state cfg_small)) ! 0 = ''AC''
   \<and> thread_mxs (contamination_mx (projr short_call)) ! 0 ! 2 ! 0 = 2
   \<and> matrix_sum (thread_mxs (contamination_mx (projr short_call)) ! 0) = 2
   \<and> tm_total (contamination_mx after_short_batch) = total_length short_recs
   \<and> total_length short_recs = 7
   \<and> execute cfg_small short_recs = Some (Inl NullDereference)
   \<and> execute cfg_small ok_recs = Some (Inr after_ok_run)
   \<and> matrix_sum (final_mx (contamination_mx after_ok_run)) = total_length ok_recs
   \<and> total_length ok_recs = 15"
proof -
  let ?st = "load_batch short_recs (init_state cfg_small)"
  have s: "seqs ?st ! 0 = ''AC''"
    by (simp add: load_batch_frame batch_of_def short_recs_def BATCH_SIZE_def)
  have m: "thread_mxs (contamination_mx ?st) ! 0 = new_matrix 4 4"
    by (simp add: load_batch_frame init_state_def Let_def new_threaded_matrix_def cfg_small_def)
  have l: "length (thread_mxs (contamination_mx ?st)) = 2"
    by (simp add: load_batch_frame init_state_def Let_def new_threaded_matrix_def cfg_small_def)
  have inc: "incTM (contamination_mx ?st) 0 2 0 v
      = Some ((contamination_mx ?st)\<lparr>thread_mxs :=
          (thread_mxs (contamination_mx ?st))[0 := matrix_inc (new_matrix 4 4) 2 0 v]\<rparr>)" for v
    by (simp add: incTM_def m l in_matrix_shape[OF new_matrix_shape])
  have p: "short_call = Inr ((store_results cfg_small 0 ?st)\<lparr>contamination_mx :=
          (contamination_mx ?st)\<lparr>thread_mxs :=
          (thread_mxs (contamination_mx ?st))[0 := matrix_inc (new_matrix 4 4) 2 0 (length ''AC'')]\<rparr>\<rparr>)"
    unfolding short_call_def processSeq_eval s
    by (simp add: gc_small cvg_small gc_bin_small cvg_bin_small inc)
  have 1: "short_call = Inr (projr short_call)"
    by (simp add: p)
  have 2: "thread_mxs (contamination_mx (projr short_call)) ! 0 ! 2 ! 0 = 2"
    by (simp add: p l matrix_inc_def new_matrix_def)
  have 3: "matrix_sum (thread_mxs (contamination_mx (projr short_call)) ! 0) = 2"
    using processSeq_thread[OF 1[unfolded short_call_def], folded short_call_def]
    by (simp add: s m new_matrix_sum)
  have 4: "tm_total (contamination_mx after_short_batch) = total_length short_recs"
    using analyseBatch_effect(8)[OF small_facts(1) short_batch_done]
    by (simp add: init_state_facts short_batch(1))
  have 5: "execute cfg_small short_recs = Some (Inl NullDereference)"
    using finish_batch_effect(1)[OF small_facts(1) short_batch_done]
    by (simp add: execute_first_batch small_facts short_recs_def[THEN arg_cong, of "\<lambda>x. x = []"]
        short_batch_done short_batch)
  have 6: "matrix_sum (final_mx (contamination_mx after_ok_run)) = total_length ok_recs"
    by (rule execute_effect(4)[OF ok_run_done])
  show ?thesis
    using 1 s 2 3 4 5 6 ok_run_done short_batch(5) ok_batch_facts(4) by simp
qed

text \<open>
  C9: with at least one thread, worker \<open>t\<close> (the function \<^verbatim>\<open>analyseBatchSlice\<close> of its
  thread) makes the calls of \<^verbatim>\<open>processSeq\<close> for the
  indices \<open>t, t + T, t + 2T, \<dots>\<close> below \<open>recordsInBatch\<close>, in this order; these are the
  indices congruent to \<open>t\<close> modulo \<open>T\<close>, so every index of the batch belongs to exactly
  one worker; when all workers have returned, the rows of the statistics table and the
  lines of the counts file are those of the records of the batch in the order of the
  input; with three threads and seven records the workers have the indices
  \<open>0,3,6\<close>, \<open>1,4\<close> and \<open>2,5\<close>.
\<close>

theorem interlaced_assignment:
  assumes "0 < unat (threads c)" and "t < unat (threads c)"
  shows "processInterlaced c t st =
      Some (run_calls c (map (\<lambda>i. (i, t))
             (interlaced_indices (unat (threads c)) (recordsInBatch st) t)) st)
    \<and> analyseBatchSlice c t st = processInterlaced c t st
    \<and> set (interlaced_indices (unat (threads c)) n t) = {i. i < n \<and> i mod unat (threads c) = t}
    \<and> (\<forall>i<n. \<exists>!w. w < unat (threads c) \<and> i \<in> set (interlaced_indices (unat (threads c)) n w))
    \<and> (analyseBatch c (load_batch recs st0) = Some (Inr st1) \<longrightarrow>
         stats_csv (printStatTable st1) = stats_csv st0 @ map (expected_row c) (batch_of recs)
         \<and> counts_cvg (printCounts st1)
             = counts_cvg st0 @ concat (map (counts_lines c) (batch_of recs)))
    \<and> interlaced_indices 3 7 0 = [0, 3, 6] \<and> interlaced_indices 3 7 1 = [1, 4]
    \<and> interlaced_indices 3 7 2 = [2, 5]"
proof -
  have 1: "processInterlaced c t st =
      Some (run_calls c (map (\<lambda>i. (i, t))
             (interlaced_indices (unat (threads c)) (recordsInBatch st) t)) st)"
    by (simp add: processInterlaced_def loop_run_calls[OF assms(1)])
  have 0: "analyseBatchSlice c t st = processInterlaced c t st"
    using 1 by (simp add: analyseBatchSlice_run[OF assms(1)] worker_calls_def)
  have 2: "set (interlaced_indices (unat (threads c)) n t) = {i. i < n \<and> i mod unat (threads c) = t}"
    using assms by (rule set_interlaced)
  have 3: "\<forall>i<n. \<exists>!w. w < unat (threads c) \<and> i \<in> set (interlaced_indices (unat (threads c)) n w)"
    using worker_unique[OF assms(1)] by blast
  have 4: "stats_csv (printStatTable st1) = stats_csv st0 @ map (expected_row c) (batch_of recs)
         \<and> counts_cvg (printCounts st1)
             = counts_cvg st0 @ concat (map (counts_lines c) (batch_of recs))"
    if a: "analyseBatch c (load_batch recs st0) = Some (Inr st1)"
    using batch_rows(1,2)[OF assms(1) a] analyseBatch_effect(4,5)[OF assms(1) a]
    by (simp add: printStatTable_def printCounts_def)
  have 5: "interlaced_indices 3 7 0 = [0, 3, 6] \<and> interlaced_indices 3 7 1 = [1, 4]
    \<and> interlaced_indices 3 7 2 = [2, 5]"
    by (simp add: interlaced_indices_def upt_rec)
  show ?thesis
    using 0 1 2 3 4 5 by blast
qed

theorem interlaced_assignment_witness:
  "0 < unat (threads cfg_small) \<and> 1 < unat (threads cfg_small)
   \<and> processInterlaced cfg_small 1 ok_batch = Some (run_calls cfg_small [(1, 1)] ok_batch)
   \<and> set (interlaced_indices (unat (threads cfg_small)) 3 1) = {1}
   \<and> set (interlaced_indices (unat (threads cfg_small)) 3 0) = {0, 2}
   \<and> analyseBatch cfg_small ok_batch = Some (Inr after_ok_batch)
   \<and> stats_csv (printStatTable after_ok_batch) = map (expected_row cfg_small) ok_recs
   \<and> map fst (stats_csv (printStatTable after_ok_batch)) = [''s1'', ''s2'', ''s3'']"
proof -
  have T: "0 < unat (threads cfg_small)" "1 < unat (threads cfg_small)"
    by (simp_all add: cfg_small_def)
  have n: "recordsInBatch ok_batch = 3" "stats_csv (init_state cfg_small) = []"
    "batch_of ok_recs = ok_recs"
    by (simp_all add: ok_batch_def load_batch_frame batch_of_def ok_recs_def init_state_facts
        BATCH_SIZE_def)
  have i: "interlaced_indices (unat (threads cfg_small)) 3 1 = [1]"
    by (simp add: interlaced_indices_def cfg_small_def)
  have i0: "set (interlaced_indices (unat (threads cfg_small)) 3 0) = {0, 2}"
    by (auto simp: interlaced_indices_def cfg_small_def)
  note a = ok_batch_done
  have nm: "map fst (map (expected_row cfg_small) ok_recs) = [''s1'', ''s2'', ''s3'']"
    by (simp add: expected_row_def ok_recs_def)
  show ?thesis
    using interlaced_assignment[OF T, of ok_batch 3 ok_recs "init_state cfg_small" after_ok_batch]
      T n i i0 a[unfolded ok_batch_def] a nm
    by (simp add: ok_batch_def)
qed

end
